theory Spec2Isabelle
  imports Main "HOL-Library.Word"
begin

unbundle bit_operations_syntax

section \<open>Preliminaries: Go values\<close>

text \<open>
  A Go \<open>string\<close> (and a \<open>[]byte\<close>) is a sequence of bytes: it is modelled by
  \<^typ>\<open>string\<close>, whose characters are bytes. \<open>len\<close> is \<^const>\<open>length\<close>, \<open>s[i]\<close> is
  \<open>s ! i\<close> and the slice \<open>s[a:b]\<close> is \<open>slice s a b\<close>. Go panics when a slice bound lies
  outside the string; the places where the model slices a string are listed with the
  lemma that shows the bound (see \<open>Next_le_length\<close> for the pieces cut by the encoder).
  Token ids are \<open>uint32\<close> values. Indices are \<open>int\<close> values of Go that are never
  negative in the code below; they are modelled by \<^typ>\<open>nat\<close>.
\<close>

type_synonym token = "32 word"
type_synonym Rank = "32 word"

definition bv :: "char \<Rightarrow> nat" where
  "bv c = of_char c"

definition slice :: "string \<Rightarrow> nat \<Rightarrow> nat \<Rightarrow> string" where
  "slice s a b = take (b - a) (drop a s)"

definition HasPrefix :: "string \<Rightarrow> string \<Rightarrow> bool" where
  "HasPrefix s p = (take (length p) s = p)"

text \<open>\<open>fmt.Sprintf("%d", n)\<close> for an unsigned number.\<close>

function decimal :: "nat \<Rightarrow> string" where
  "decimal n = (if n < 10 then [char_of (48 + n)]
                else decimal (n div 10) @ [char_of (48 + n mod 10)])"
  by pat_completeness auto
termination
  by (relation "measure id") auto

declare decimal.simps [simp del]

text \<open>
  Errors of the library, one constructor for each \<open>errors.New\<close> / \<open>fmt.Errorf\<close> of the
  source; \<open>LoadError\<close> stands for any error of the vocabulary loader (file system and
  network).
\<close>

datatype error =
    UnsupportedEncoding
  | LoadError
  | ToolMessageWithoutName
  | NilSystemContent
  | NilDeveloperContent
  | UnknownContentType
  | UnmappedFormattingToken
  | InvalidTokenForDecoding
  | UnexpectedTokenExpectingStart
  | InvalidParserState

section \<open>tokenizer: special token ids\<close>

definition TokStartOfText :: token where "TokStartOfText = 199998"
definition TokEndOfText :: token where "TokEndOfText = 199999"
definition TokReturn :: token where "TokReturn = 200002"
definition TokConstrain :: token where "TokConstrain = 200003"
definition TokChannel :: token where "TokChannel = 200005"
definition TokStart :: token where "TokStart = 200006"
definition TokEnd :: token where "TokEnd = 200007"
definition TokMessage :: token where "TokMessage = 200008"
definition TokCall :: token where "TokCall = 200012"

definition ReservedStart :: nat where "ReservedStart = 200014"
definition ReservedEnd :: nat where "ReservedEnd = 201088"

text \<open>
  \<open>buildHarmonySpecials\<close> returns a Go map; its keys are pairwise different, and it is
  modelled by the association list of its entries (the nine literals, then the reserved
  range in increasing order).
\<close>

definition namedSpecials :: "(string \<times> token) list" where
  "namedSpecials =
    [(''<|startoftext|>'', TokStartOfText),
     (''<|endoftext|>'', TokEndOfText),
     (''<|return|>'', TokReturn),
     (''<|constrain|>'', TokConstrain),
     (''<|channel|>'', TokChannel),
     (''<|start|>'', TokStart),
     (''<|end|>'', TokEnd),
     (''<|message|>'', TokMessage),
     (''<|call|>'', TokCall)]"

definition reservedSpecial :: "nat \<Rightarrow> string \<times> token" where
  "reservedSpecial n = (''<|reserved_'' @ decimal n @ ''|>'', of_nat n)"

definition buildHarmonySpecials :: "(string \<times> token) list" where
  "buildHarmonySpecials =
     namedSpecials @ map reservedSpecial [ReservedStart ..< Suc ReservedEnd]"

definition HarmonySpecials :: "(string \<times> token) list" where
  "HarmonySpecials = buildHarmonySpecials"

section \<open>tokenizer: the O200k segmenter\<close>

text \<open>
  The Unicode tables of Go's standard library (\<open>unicode.L\<close>, \<open>unicode.M\<close>, \<open>unicode.N\<close>,
  \<open>unicode.IsSpace\<close>) are not part of the repository: they are parameters, predicates on
  code points. So is \<open>strings.ToLower\<close>, which maps a string through the case tables.
\<close>

record unicode =
  inL :: "nat \<Rightarrow> bool"
  inM :: "nat \<Rightarrow> bool"
  inN :: "nat \<Rightarrow> bool"
  IsSpace :: "nat \<Rightarrow> bool"
  ToLower :: "string \<Rightarrow> string"

definition RuneSelf :: nat where "RuneSelf = 0x80"
definition RuneError :: nat where "RuneError = 0xFFFD"

text \<open>
  The lead bytes of UTF-8 (\<open>first\<close> and \<open>acceptRanges\<close> of \<open>unicode/utf8\<close>): the size
  of the sequence and the range accepted for its second byte; \<open>None\<close> for a byte that
  starts no sequence of two bytes or more.
\<close>

definition utf8Lead :: "nat \<Rightarrow> (nat \<times> nat \<times> nat) option" where
  "utf8Lead s0 =
    (if 0xC2 \<le> s0 \<and> s0 \<le> 0xDF then Some (2, 0x80, 0xBF)
     else if s0 = 0xE0 then Some (3, 0xA0, 0xBF)
     else if 0xE1 \<le> s0 \<and> s0 \<le> 0xEC then Some (3, 0x80, 0xBF)
     else if s0 = 0xED then Some (3, 0x80, 0x9F)
     else if 0xEE \<le> s0 \<and> s0 \<le> 0xEF then Some (3, 0x80, 0xBF)
     else if s0 = 0xF0 then Some (4, 0x90, 0xBF)
     else if 0xF1 \<le> s0 \<and> s0 \<le> 0xF3 then Some (4, 0x80, 0xBF)
     else if s0 = 0xF4 then Some (4, 0x80, 0x8F)
     else None)"

text \<open>
  \<open>utf8.DecodeRuneInString\<close> of the standard library, which the segmenter calls through
  \<open>utf8DecodeRuneInString\<close>: the code point and its width in bytes, \<open>(RuneError, 1)\<close>
  for an invalid encoding and \<open>(RuneError, 0)\<close> for the empty string.
\<close>

definition utf8DecodeRuneInString :: "string \<Rightarrow> nat \<times> nat" where
  "utf8DecodeRuneInString s =
    (if length s < 1 then (RuneError, 0)
     else
       let s0 = bv (s ! 0) in
       if s0 < RuneSelf then (s0, 1)
       else
         (case utf8Lead s0 of
            None \<Rightarrow> (RuneError, 1)
          | Some (sz, lo, hi) \<Rightarrow>
              if length s < sz then (RuneError, 1)
              else
                let s1 = bv (s ! 1) in
                if s1 < lo \<or> hi < s1 then (RuneError, 1)
                else if sz \<le> 2 then ((s0 mod 32) * 64 + s1 mod 64, 2)
                else
                  let s2 = bv (s ! 2) in
                  if s2 < 0x80 \<or> 0xBF < s2 then (RuneError, 1)
                  else if sz \<le> 3 then
                    ((s0 mod 16) * 4096 + (s1 mod 64) * 64 + s2 mod 64, 3)
                  else
                    let s3 = bv (s ! 3) in
                    if s3 < 0x80 \<or> 0xBF < s3 then (RuneError, 1)
                    else
                      ((s0 mod 8) * 262144 + (s1 mod 64) * 4096 + (s2 mod 64) * 64
                         + s3 mod 64, 4)))"

definition isL :: "unicode \<Rightarrow> nat \<Rightarrow> bool" where
  "isL U r = (inL U r \<or> inM U r)"

definition isN :: "unicode \<Rightarrow> nat \<Rightarrow> bool" where
  "isN U r = inN U r"

definition isSpace :: "unicode \<Rightarrow> nat \<Rightarrow> bool" where
  "isSpace U r = IsSpace U r"

definition isASCIISpace :: "char \<Rightarrow> bool" where
  "isASCIISpace b =
     (b = CHR '' '' \<or> b = CHR 0x09 \<or> b = CHR 0x0A \<or> b = CHR 0x0D \<or> b = CHR 0x0C
      \<or> b = CHR 0x0B)"

definition isASCIILetter :: "char \<Rightarrow> bool" where
  "isASCIILetter b =
     ((bv CHR ''A'' \<le> bv b \<and> bv b \<le> bv CHR ''Z'')
      \<or> (bv CHR ''a'' \<le> bv b \<and> bv b \<le> bv CHR ''z''))"

definition isASCIIDigit :: "char \<Rightarrow> bool" where
  "isASCIIDigit b = (bv CHR ''0'' \<le> bv b \<and> bv b \<le> bv CHR ''9'')"

lemma utf8Lead_size:
  "utf8Lead s0 = Some (sz, lo, hi) \<Longrightarrow> 2 \<le> sz \<and> sz \<le> 4"
  by (auto simp: utf8Lead_def split: if_splits)

lemma utf8DecodeRuneInString_size:
  assumes "s \<noteq> []" and "utf8DecodeRuneInString s = (r, sz)"
  shows "1 \<le> sz \<and> sz \<le> length s"
proof -
  have len: "1 \<le> length s"
    using assms(1) by (cases s) auto
  show ?thesis
  proof (cases "utf8Lead (bv (s ! 0))")
    case None
    then show ?thesis
      using assms len by (auto simp: utf8DecodeRuneInString_def Let_def split: if_splits)
  next
    case (Some t)
    obtain n lo hi where t: "t = (n, lo, hi)"
      by (cases t) auto
    have "2 \<le> n \<and> n \<le> 4"
      using Some t utf8Lead_size by blast
    then show ?thesis
      using assms len Some t
      by (auto simp: utf8DecodeRuneInString_def Let_def split: if_splits)
  qed
qed

text \<open>
  The scanning loops of the segmenter all have one shape:
  \<^verbatim>\<open>
  for j < len(s) {
      b := s[j]
      if b < utf8.RuneSelf { if !okByte(b) { break }; j++; had = true; continue }
      r, sz := utf8DecodeRuneInString(s[j:])
      if !okRune(r) { break }
      j += sz; had = true
  }
  \<close>
  \<open>scanRun okByte okRune s j had\<close> is this loop; it returns the final \<open>j\<close> and the flag
  (loops that keep no flag ignore it). The loop of \<open>ruleNumbers\<close>, which also counts, is
  \<open>numbersLoop\<close>.
\<close>

function scanRun :: "(char \<Rightarrow> bool) \<Rightarrow> (nat \<Rightarrow> bool) \<Rightarrow> string \<Rightarrow> nat \<Rightarrow> bool \<Rightarrow> nat \<times> bool" where
  "scanRun okByte okRune s j had =
    (if j < length s then
       (if bv (s ! j) < RuneSelf then
          (if \<not> okByte (s ! j) then (j, had)
           else scanRun okByte okRune s (j + 1) True)
        else
          (if \<not> okRune (fst (utf8DecodeRuneInString (drop j s))) then (j, had)
           else scanRun okByte okRune s (j + snd (utf8DecodeRuneInString (drop j s))) True))
     else (j, had))"
  by pat_completeness auto
termination
proof (relation "measure (\<lambda>(okByte, okRune, s, j, had). length s - j)")
  show "wf (measure (\<lambda>(okByte, okRune, s, j, had). length s - j))"
    by simp
next
  fix okByte :: "char \<Rightarrow> bool" and okRune :: "nat \<Rightarrow> bool" and s :: string and j :: nat and had :: bool
  assume "j < length s"
  then show "((okByte, okRune, s, j + 1, True), (okByte, okRune, s, j, had))
               \<in> measure (\<lambda>(okByte, okRune, s, j, had). length s - j)"
    by simp
next
  fix okByte :: "char \<Rightarrow> bool" and okRune :: "nat \<Rightarrow> bool" and s :: string and j :: nat and had :: bool
  assume j: "j < length s"
  then have "drop j s \<noteq> []"
    by simp
  then have "1 \<le> snd (utf8DecodeRuneInString (drop j s))"
    using utf8DecodeRuneInString_size [of "drop j s"] by (metis prod.collapse)
  then show "((okByte, okRune, s, j + snd (utf8DecodeRuneInString (drop j s)), True),
               (okByte, okRune, s, j, had))
               \<in> measure (\<lambda>(okByte, okRune, s, j, had). length s - j)"
    using j by simp
qed

declare scanRun.simps [simp del]

function numbersLoop :: "unicode \<Rightarrow> string \<Rightarrow> nat \<Rightarrow> nat \<Rightarrow> nat \<times> nat" where
  "numbersLoop U s j count =
    (if j < length s then
       (if bv (s ! j) < RuneSelf then
          (if \<not> isASCIIDigit (s ! j) \<or> count \<ge> 3 then (j, count)
           else numbersLoop U s (j + 1) (count + 1))
        else
          (if \<not> isN U (fst (utf8DecodeRuneInString (drop j s))) \<or> count \<ge> 3 then (j, count)
           else numbersLoop U s (j + snd (utf8DecodeRuneInString (drop j s))) (count + 1)))
     else (j, count))"
  by pat_completeness auto
termination
proof (relation "measure (\<lambda>(U, s, j, count). length s - j)")
  show "wf (measure (\<lambda>(U, s, j, count). length s - j))"
    by simp
next
  fix U :: unicode and s :: string and j count :: nat
  assume "j < length s"
  then show "((U, s, j + 1, count + 1), (U, s, j, count))
               \<in> measure (\<lambda>(U, s, j, count). length s - j)"
    by simp
next
  fix U :: unicode and s :: string and j count :: nat
  assume j: "j < length s"
  then have "drop j s \<noteq> []"
    by simp
  then have "1 \<le> snd (utf8DecodeRuneInString (drop j s))"
    using utf8DecodeRuneInString_size [of "drop j s"] by (metis prod.collapse)
  then show "((U, s, j + snd (utf8DecodeRuneInString (drop j s)), count + 1), (U, s, j, count))
               \<in> measure (\<lambda>(U, s, j, count). length s - j)"
    using j by simp
qed

declare numbersLoop.simps [simp del]

definition consumeLetterRun :: "unicode \<Rightarrow> string \<Rightarrow> nat \<Rightarrow> nat" where
  "consumeLetterRun U s i = fst (scanRun isASCIILetter (isL U) s i False)"

definition hasCaseInsensitiveSuffixAt :: "string \<Rightarrow> nat \<Rightarrow> string \<Rightarrow> bool" where
  "hasCaseInsensitiveSuffixAt s i suf =
    (if i + length suf > length s then False
     else list_all (\<lambda>k. bv (s ! (i + k)) OR 0x20 = bv (suf ! k) OR 0x20) [0 ..< length suf])"

definition contractionSuffixes :: "string list" where
  "contractionSuffixes = [''s'', ''t'', ''re'', ''ve'', ''m'', ''ll'', ''d'']"

definition matchContraction :: "string \<Rightarrow> nat \<Rightarrow> nat" where
  "matchContraction s i =
    (if i \<ge> length s \<or> s ! i \<noteq> CHR 0x27 then i
     else
       (case find (hasCaseInsensitiveSuffixAt s (i + 1)) contractionSuffixes of
          Some suf \<Rightarrow> i + 1 + length suf
        | None \<Rightarrow> i))"

definition ruleLettersWithContraction :: "unicode \<Rightarrow> string \<Rightarrow> nat \<Rightarrow> nat" where
  "ruleLettersWithContraction U s i =
    (let end = consumeLetterRun U s i in
     if end > i then
       (let end2 = matchContraction s end in
        if end2 > end then end2 else end)
     else i)"

text \<open>Called by \<open>Next\<close> with \<open>i < len(s)\<close> only (it reads \<open>s[i]\<close>).\<close>

definition ruleLettersWithPrefixAndContraction :: "unicode \<Rightarrow> string \<Rightarrow> nat \<Rightarrow> nat" where
  "ruleLettersWithPrefixAndContraction U s i =
    (let (r, sz) = (if bv (s ! i) \<ge> 0x80 then utf8DecodeRuneInString (drop i s)
                    else (bv (s ! i), 1)) in
     if \<not> (\<not> isSpace U r \<and> \<not> isL U r \<and> \<not> isN U r) then ruleLettersWithContraction U s i
     else
       (let j = i + sz; end = consumeLetterRun U s j in
        if end > j then
          (let end2 = matchContraction s end in
           if end2 > end then end2 else end)
        else i))"

definition ruleNumbers :: "unicode \<Rightarrow> string \<Rightarrow> nat \<Rightarrow> nat" where
  "ruleNumbers U s i =
    (let (j, count) = numbersLoop U s i 0 in
     if count > 0 then j else i)"

definition rulePunctRun :: "unicode \<Rightarrow> string \<Rightarrow> nat \<Rightarrow> nat" where
  "rulePunctRun U s i =
    (let j0 =
       (if i < length s then
          (if bv (s ! i) < RuneSelf then (if isASCIISpace (s ! i) then i + 1 else i)
           else
             (let (r, sz) = utf8DecodeRuneInString (drop i s) in
              if isSpace U r then i + sz else i))
        else i);
       (j, had) =
         scanRun (\<lambda>b. \<not> (isASCIISpace b \<or> isASCIILetter b \<or> isASCIIDigit b))
           (\<lambda>r. \<not> (isSpace U r \<or> isL U r \<or> isN U r)) s j0 False
     in
     if \<not> had then i
     else if j < length s then
       (if bv (s ! j) < RuneSelf then
          (if s ! j = CHR 0x0D \<or> s ! j = CHR 0x0A \<or> s ! j = CHR ''/'' then j + 1 else j)
        else
          (let (r, sz) = utf8DecodeRuneInString (drop j s) in
           if r = 0x0D \<or> r = 0x0A \<or> r = 0x2F then j + sz else j))
     else j)"

definition ruleNewlines :: "unicode \<Rightarrow> string \<Rightarrow> nat \<Rightarrow> nat" where
  "ruleNewlines U s i =
    (let j1 = fst (scanRun (\<lambda>b. \<not> (\<not> isASCIISpace b \<or> b = CHR 0x0D \<or> b = CHR 0x0A))
                     (\<lambda>r. \<not> (\<not> isSpace U r \<or> r = 0x0D \<or> r = 0x0A)) s i False);
         (j2, have) = scanRun (\<lambda>b. \<not> (b \<noteq> CHR 0x0D \<and> b \<noteq> CHR 0x0A))
                        (\<lambda>r. \<not> (r \<noteq> 0x0D \<and> r \<noteq> 0x0A)) s j1 False
     in
     if \<not> have then i
     else fst (scanRun (\<lambda>b. \<not> (b \<noteq> CHR 0x0D \<and> b \<noteq> CHR 0x0A))
                 (\<lambda>r. \<not> (r \<noteq> 0x0D \<and> r \<noteq> 0x0A)) s j2 False))"

definition ruleWhitespace :: "unicode \<Rightarrow> string \<Rightarrow> nat \<Rightarrow> nat" where
  "ruleWhitespace U s i =
    (let j = fst (scanRun isASCIISpace (isSpace U) s i False) in
     if j > i then j else i)"

text \<open>
  \<open>o200kSegmenter.Next\<close>. The first loop (rule 6) leaves \<open>allWS\<close> true exactly when it runs
  to the end of the string: a \<open>break\<close> happens at an index below \<open>len(s)\<close>.
\<close>

definition Next :: "unicode \<Rightarrow> string \<Rightarrow> nat \<Rightarrow> nat" where
  "Next U s i =
    (if i \<ge> length s then i
     else
       (let allWS = (fst (scanRun isASCIISpace (isSpace U) s i False) \<ge> length s) in
        if allWS then length s
        else if ruleLettersWithPrefixAndContraction U s i > i
          then ruleLettersWithPrefixAndContraction U s i
        else if ruleLettersWithContraction U s i > i then ruleLettersWithContraction U s i
        else if ruleNumbers U s i > i then ruleNumbers U s i
        else if rulePunctRun U s i > i then rulePunctRun U s i
        else if ruleNewlines U s i > i then ruleNewlines U s i
        else if ruleWhitespace U s i > i then ruleWhitespace U s i
        else i + 1))"

definition NewO200kSegmenter :: "unicode \<Rightarrow> string \<Rightarrow> nat \<Rightarrow> nat" where
  "NewO200kSegmenter U = Next U"

definition asciiUnicode :: unicode where
  "asciiUnicode =
     \<lparr>inL = (\<lambda>r. (65 \<le> r \<and> r \<le> 90) \<or> (97 \<le> r \<and> r \<le> 122)),
      inM = (\<lambda>r. False),
      inN = (\<lambda>r. 48 \<le> r \<and> r \<le> 57),
      IsSpace = (\<lambda>r. r = 32 \<or> (9 \<le> r \<and> r \<le> 13)),
      ToLower = map (\<lambda>c. if isASCIILetter c \<and> bv c < 97 then char_of (bv c + 32) else c)\<rparr>"

text \<open>
  \<open>asciiUnicode\<close> is a small instance of the tables (the ASCII letters, digits and white
  space), used to run the definitions on concrete inputs.
\<close>

section \<open>tokenizer: the decoder store\<close>

text \<open>
  The vocabulary is a list of pairs (bytes, rank), as \<open>LoadO200k\<close> yields them (the byte
  string of a pair is never \<open>nil\<close>). \<open>heapStore.arr\<close> is a slice of byte slices indexed
  by rank; a \<open>nil\<close> entry is \<open>None\<close>. \<open>newTokenStore\<close> never returns an error.
\<close>

type_synonym pairs = "(string \<times> Rank) list"

record heapStore =
  arr :: "string option list"

definition newTokenStore :: "pairs \<Rightarrow> heapStore" where
  "newTokenStore ps =
    (let maxID = foldl (\<lambda>m (b, tid). if tid > m then tid else m) 0 ps;
         size = unat maxID + 1;
         tmp = foldl (\<lambda>tmp (b, tid). if tmp ! unat tid = None then tmp[unat tid := Some b] else tmp)
                 (replicate size None) ps
     in \<lparr>arr = tmp\<rparr>)"

text \<open>\<open>AppendInto\<close>: the extended destination, or \<open>None\<close> where the source returns false.\<close>

definition AppendInto :: "heapStore \<Rightarrow> string \<Rightarrow> token \<Rightarrow> string option" where
  "AppendInto s dst tid =
    (if unat tid \<ge> length (arr s) then None
     else (case arr s ! unat tid of None \<Rightarrow> None | Some b \<Rightarrow> Some (dst @ b)))"

section \<open>tokenizer: the BPE core\<close>

text \<open>
  \<open>coreBPE\<close>: the forward map, the decoder store, the special tokens in both directions
  and the segmenter (the reusable buffers \<open>partsPool\<close> and \<open>tokenPool\<close> hold no
  observable state). The map \<open>specialEnc\<close> is iterated by \<open>matchSpecialAt\<close>, so it is
  kept as the list of its entries.
\<close>

record coreBPE =
  enc :: "string \<rightharpoonup> Rank"
  dec :: heapStore
  specialEnc :: "(string \<times> Rank) list"
  specialDec :: "Rank \<rightharpoonup> string"
  seg :: "string \<Rightarrow> nat \<Rightarrow> nat"

definition newCoreBPE :: "pairs \<Rightarrow> (string \<times> Rank) list \<Rightarrow> (string \<Rightarrow> nat \<Rightarrow> nat) \<Rightarrow> coreBPE" where
  "newCoreBPE encoderPairs specials sg =
    \<lparr>enc = foldl (\<lambda>m (b, r). m(b \<mapsto> r)) Map.empty encoderPairs,
     dec = newTokenStore encoderPairs,
     specialEnc = specials,
     specialDec = foldl (\<lambda>m (k, v). m(v \<mapsto> k)) Map.empty specials,
     seg = sg\<rparr>"

definition NewCoreBPE :: "pairs \<Rightarrow> (string \<times> Rank) list \<Rightarrow> (string \<Rightarrow> nat \<Rightarrow> nat) \<Rightarrow> coreBPE" where
  "NewCoreBPE ps specials sg = newCoreBPE ps specials sg"

text \<open>
  \<open>DecodeBytesInto\<close>: the bytes of each token, from the rank table first and from the
  special tokens otherwise; an unknown id is an error (and \<open>dst\<close> is left as it was).
\<close>

fun DecodeBytesInto :: "coreBPE \<Rightarrow> string \<Rightarrow> token list \<Rightarrow> error + string" where
  "DecodeBytesInto b buf [] = Inr buf"
| "DecodeBytesInto b buf (t # ts) =
    (case AppendInto (dec b) buf t of
       Some buf' \<Rightarrow> DecodeBytesInto b buf' ts
     | None \<Rightarrow>
         (case specialDec b t of
            Some v \<Rightarrow> DecodeBytesInto b (buf @ v) ts
          | None \<Rightarrow> Inl InvalidTokenForDecoding))"

definition DecodeBytes :: "coreBPE \<Rightarrow> token list \<Rightarrow> error + string" where
  "DecodeBytes b tokens = DecodeBytesInto b [] tokens"

text \<open>\<open>DecodeUTF8\<close> converts the bytes with \<open>string(bs)\<close>: it validates nothing.\<close>

definition DecodeUTF8 :: "coreBPE \<Rightarrow> token list \<Rightarrow> error + string" where
  "DecodeUTF8 b tokens =
    (case DecodeBytes b tokens of Inl err \<Rightarrow> Inl err | Inr bs \<Rightarrow> Inr bs)"

definition IsSpecialToken :: "coreBPE \<Rightarrow> token \<Rightarrow> bool" where
  "IsSpecialToken b tid = (specialDec b tid \<noteq> None)"

text \<open>The sentinel rank \<open>^uint32(0)\<close>, and \<open>b.enc[k]\<close> read without the \<open>ok\<close> flag
  (the zero value for a missing key).\<close>

definition maxRank :: Rank where
  "maxRank = - 1"

definition encOrZero :: "coreBPE \<Rightarrow> string \<Rightarrow> Rank" where
  "encOrZero b k = (case enc b k of None \<Rightarrow> 0 | Some r \<Rightarrow> r)"

record part =
  start :: nat
  rank :: Rank

definition getRank :: "coreBPE \<Rightarrow> string \<Rightarrow> part list \<Rightarrow> nat \<Rightarrow> Rank" where
  "getRank b piece parts i =
    (if i + 3 < length parts then
       (case enc b (slice piece (start (parts ! i)) (start (parts ! (i + 3)))) of
          Some r \<Rightarrow> r
        | None \<Rightarrow> maxRank)
     else maxRank)"

text \<open>
  The search for the lowest rank, \<open>for j := ...; if r < minRank.rank { minRank = {r, j} }\<close>,
  over the ranks \<open>rs\<close> from index \<open>j\<close> on: the first index of the least rank below the one
  held, which starts as \<open>{^uint32(0), -1}\<close>.
\<close>

fun minRankFrom :: "Rank \<times> int \<Rightarrow> nat \<Rightarrow> Rank list \<Rightarrow> Rank \<times> int" where
  "minRankFrom m j [] = m"
| "minRankFrom m j (r # rs) =
    (if r < fst m then minRankFrom (r, int j) (j + 1) rs else minRankFrom m (j + 1) rs)"

definition minRankOf :: "Rank list \<Rightarrow> Rank \<times> int" where
  "minRankOf rs = minRankFrom (maxRank, - 1) 0 rs"

text \<open>
  One round of the merge loop of \<open>bytePairMerge\<close>, at the index \<open>i\<close> of the lowest rank:
  the ranks of \<open>parts[i-1]\<close> and \<open>parts[i]\<close> are computed again and \<open>parts[i+1]\<close> is
  removed.
\<close>

definition mergeAt :: "coreBPE \<Rightarrow> string \<Rightarrow> part list \<Rightarrow> nat \<Rightarrow> part list" where
  "mergeAt b piece parts i =
    (let parts1 = (if i > 0
                   then parts[i - 1 := (parts ! (i - 1))\<lparr>rank := getRank b piece parts (i - 1)\<rparr>]
                   else parts);
         parts2 = parts1[i := (parts1 ! i)\<lparr>rank := getRank b piece parts1 i\<rparr>]
     in take (i + 1) parts2 @ drop (i + 2) parts2)"

text \<open>
  The merge loop. The source reads \<open>parts[i-1]\<close>, \<open>parts[i]\<close> and cuts \<open>parts[i+2:]\<close> at
  the index \<open>i\<close> found by the search; outside \<open>0 \<le> i \<le> len(parts) - 2\<close> Go would panic,
  and the model returns the parts as they are. The index found always lies in that range
  (lemmas \<open>minRankOf_index\<close> and \<open>partsInv_mergeAt\<close>).
\<close>

function mergeLoop :: "coreBPE \<Rightarrow> string \<Rightarrow> part list \<Rightarrow> Rank \<times> int \<Rightarrow> part list" where
  "mergeLoop b piece parts minRank =
    (if fst minRank \<noteq> maxRank \<and> 0 \<le> snd minRank \<and> nat (snd minRank) + 2 \<le> length parts then
       mergeLoop b piece (mergeAt b piece parts (nat (snd minRank)))
         (minRankOf (map rank (butlast (mergeAt b piece parts (nat (snd minRank))))))
     else parts)"
  by pat_completeness auto
termination
  by (relation "measure (\<lambda>(b, piece, parts, minRank). length parts)")
    (auto simp: mergeAt_def Let_def)

declare mergeLoop.simps [simp del]

definition initialParts :: "coreBPE \<Rightarrow> string \<Rightarrow> part list" where
  "initialParts b piece =
     map (\<lambda>i. \<lparr>start = i,
                rank = (case enc b (slice piece i (i + 2)) of Some r \<Rightarrow> r | None \<Rightarrow> maxRank)\<rparr>)
       [0 ..< length piece - 1]"

definition bytePairMerge :: "coreBPE \<Rightarrow> string \<Rightarrow> part list" where
  "bytePairMerge b piece =
    (let parts0 = initialParts b piece;
         minRank = minRankOf (map rank parts0);
         parts = parts0 @ [\<lparr>start = length piece - 1, rank = maxRank\<rparr>,
                           \<lparr>start = length piece, rank = maxRank\<rparr>]
     in mergeLoop b piece parts minRank)"

text \<open>\<open>bytePairEncode\<close> is called with a piece that is not empty.\<close>

definition bytePairEncode :: "coreBPE \<Rightarrow> string \<Rightarrow> token list" where
  "bytePairEncode b piece =
    (if length piece = 1 then [encOrZero b piece]
     else
       (let parts = bytePairMerge b piece in
        map (\<lambda>w. encOrZero b (slice piece (start (parts ! w)) (start (parts ! (w + 1)))))
          [0 ..< length parts - 1]))"

text \<open>
  \<open>matchSpecialAt\<close>: the longest allowed special literal at index \<open>i\<close>, with its id, or
  \<open>(0, 0)\<close>.
\<close>

definition matchSpecialAt :: "coreBPE \<Rightarrow> string \<Rightarrow> nat \<Rightarrow> string set \<Rightarrow> token \<times> nat" where
  "matchSpecialAt b s i allowed =
    (let (maxLen, tid) =
       foldl (\<lambda>(maxLen, tid) (lit, tok).
                if lit \<notin> allowed then (maxLen, tid)
                else if length lit > length s - i then (maxLen, tid)
                else if slice s i (i + length lit) = lit \<and> length lit > maxLen
                  then (length lit, tok)
                else (maxLen, tid))
         (0, 0) (specialEnc b)
     in if maxLen = 0 then (0, 0) else (tid, maxLen))"

text \<open>
  The end of the next piece: \<open>end := b.seg.Next(text, i); if end <= start { end = start + 1 }\<close>.
\<close>

definition pieceEnd :: "coreBPE \<Rightarrow> string \<Rightarrow> nat \<Rightarrow> nat" where
  "pieceEnd b text i = (if seg b text i \<le> i then i + 1 else seg b text i)"

text \<open>
  The loop shared by \<open>Encode\<close> and \<open>encodeInto\<close>, from index \<open>i\<close> with the tokens \<open>out\<close>
  emitted so far: it returns the tokens and \<open>lastPieceLen\<close>. The piece is
  \<open>text[start:end]\<close>; for the O200k segmenter \<open>end \<le> len(text)\<close> (lemma
  \<open>Next_le_length\<close>).
\<close>

function encodeLoop :: "coreBPE \<Rightarrow> string \<Rightarrow> string set \<Rightarrow> nat \<Rightarrow> token list \<Rightarrow> nat \<Rightarrow> token list \<times> nat" where
  "encodeLoop b text allowedSpecial i out lastPieceLen =
    (if i < length text then
       (if allowedSpecial \<noteq> {} \<and> snd (matchSpecialAt b text i allowedSpecial) > 0 then
          encodeLoop b text allowedSpecial (i + snd (matchSpecialAt b text i allowedSpecial))
            (out @ [fst (matchSpecialAt b text i allowedSpecial)]) 0
        else
          (case enc b (slice text i (pieceEnd b text i)) of
             Some tid \<Rightarrow> encodeLoop b text allowedSpecial (pieceEnd b text i) (out @ [tid]) 1
           | None \<Rightarrow>
               encodeLoop b text allowedSpecial (pieceEnd b text i)
                 (out @ bytePairEncode b (slice text i (pieceEnd b text i)))
                 (length (bytePairEncode b (slice text i (pieceEnd b text i))))))
     else (out, lastPieceLen))"
  by pat_completeness auto
termination
  by (relation "measure (\<lambda>(b, text, allowedSpecial, i, out, lastPieceLen). length text - i)")
    (auto simp: pieceEnd_def)

declare encodeLoop.simps [simp del]

definition Encode :: "coreBPE \<Rightarrow> string \<Rightarrow> string set \<Rightarrow> token list \<times> nat" where
  "Encode b text allowedSpecial = encodeLoop b text allowedSpecial 0 [] 0"

definition encodeInto :: "coreBPE \<Rightarrow> string \<Rightarrow> string set \<Rightarrow> token list \<Rightarrow> token list \<times> nat" where
  "encodeInto b text allowedSpecial out = encodeLoop b text allowedSpecial 0 out 0"

definition EncodeOrdinary :: "coreBPE \<Rightarrow> string \<Rightarrow> token list" where
  "EncodeOrdinary b text = fst (Encode b text {})"

definition EncodeIntoOrdinary :: "coreBPE \<Rightarrow> string \<Rightarrow> token list \<Rightarrow> token list \<times> nat" where
  "EncodeIntoOrdinary b text out = encodeInto b text {} out"

definition EncodeWithSpecialTokens :: "coreBPE \<Rightarrow> string \<Rightarrow> token list" where
  "EncodeWithSpecialTokens b text = fst (Encode b text (set (map fst (specialEnc b))))"

definition EncodeWithSpecialTokensInto :: "coreBPE \<Rightarrow> string \<Rightarrow> token list \<Rightarrow> token list \<times> nat" where
  "EncodeWithSpecialTokensInto b text out = encodeInto b text (set (map fst (specialEnc b))) out"

section \<open>Functions of Go's \<open>strings\<close> package\<close>

text \<open>
  The functions of the standard library that the package calls, on byte strings.
  \<open>strings.Index\<close> and \<open>strings.IndexByte\<close> return \<open>-1\<close> when nothing is found:
  \<open>None\<close> here.
\<close>

fun Index :: "string \<Rightarrow> string \<Rightarrow> nat option" where
  "Index [] sub = (if sub = [] then Some 0 else None)"
| "Index (c # t) sub =
    (if HasPrefix (c # t) sub then Some 0 else map_option Suc (Index t sub))"

fun IndexByte :: "string \<Rightarrow> char \<Rightarrow> nat option" where
  "IndexByte [] c = None"
| "IndexByte (x # t) c = (if x = c then Some 0 else map_option Suc (IndexByte t c))"

definition Contains :: "string \<Rightarrow> string \<Rightarrow> bool" where
  "Contains s sub = (Index s sub \<noteq> None)"

definition TrimPrefix :: "string \<Rightarrow> string \<Rightarrow> string" where
  "TrimPrefix s p = (if HasPrefix s p then drop (length p) s else s)"

fun Join :: "string list \<Rightarrow> string \<Rightarrow> string" where
  "Join [] sep = []"
| "Join [x] sep = x"
| "Join (x # y # ys) sep = x @ sep @ Join (y # ys) sep"

text \<open>
  \<open>strings.ReplaceAll(s, old, new)\<close> for a pattern \<open>old\<close> that is not empty (the package
  calls it with the literals \<open><|channel|>\<close> and \<open><|constrain|>\<close> only): the occurrences
  of \<open>old\<close> that do not overlap, from the left.
\<close>

function ReplaceAll :: "string \<Rightarrow> string \<Rightarrow> string \<Rightarrow> string" where
  "ReplaceAll s old new =
    (if s = [] \<or> old = [] then s
     else if HasPrefix s old then new @ ReplaceAll (drop (length old) s) old new
     else hd s # ReplaceAll (tl s) old new)"
  by pat_completeness auto
termination
  by (relation "measure (\<lambda>(s, old, new). length s)") auto

declare ReplaceAll.simps [simp del]

text \<open>
  \<open>strings.TrimSpace\<close>: the string without its leading and trailing white space, as
  Unicode defines it. An ASCII byte is white space when it is one of the six characters
  of \<open>isASCIISpace\<close>, a code point beyond ASCII when \<open>unicode.IsSpace\<close> holds.
  \<open>trimLeftSpace\<close> removes the leading white space; \<open>keepEnd\<close> scans the string from
  index \<open>j\<close> and returns the end of the last code point that is not white space
  (\<open>e\<close> so far).
\<close>

function trimLeftSpace :: "unicode \<Rightarrow> string \<Rightarrow> string" where
  "trimLeftSpace U s =
    (if s = [] then s
     else if bv (s ! 0) < RuneSelf then
       (if isASCIISpace (s ! 0) then trimLeftSpace U (drop 1 s) else s)
     else if isSpace U (fst (utf8DecodeRuneInString s))
       then trimLeftSpace U (drop (snd (utf8DecodeRuneInString s)) s)
     else s)"
  by pat_completeness auto
termination
proof (relation "measure (\<lambda>(U, s). length s)")
  show "wf (measure (\<lambda>(U, s). length s))"
    by simp
next
  fix U :: unicode and s :: string
  assume "s \<noteq> []"
  then show "((U, drop 1 s), (U, s)) \<in> measure (\<lambda>(U, s). length s)"
    by (cases s) auto
next
  fix U :: unicode and s :: string
  assume ne: "s \<noteq> []"
  then have "1 \<le> snd (utf8DecodeRuneInString s)"
    using utf8DecodeRuneInString_size [of s] by (metis prod.collapse)
  then show "((U, drop (snd (utf8DecodeRuneInString s)) s), (U, s)) \<in> measure (\<lambda>(U, s). length s)"
    using ne by (cases s) auto
qed

declare trimLeftSpace.simps [simp del]

function keepEnd :: "unicode \<Rightarrow> string \<Rightarrow> nat \<Rightarrow> nat \<Rightarrow> nat" where
  "keepEnd U s j e =
    (if j < length s then
       (if bv (s ! j) < RuneSelf then
          keepEnd U s (j + 1) (if isASCIISpace (s ! j) then e else j + 1)
        else
          keepEnd U s (j + snd (utf8DecodeRuneInString (drop j s)))
            (if isSpace U (fst (utf8DecodeRuneInString (drop j s))) then e
             else j + snd (utf8DecodeRuneInString (drop j s))))
     else e)"
  by pat_completeness auto
termination
proof (relation "measure (\<lambda>(U, s, j, e). length s - j)")
  show "wf (measure (\<lambda>(U, s, j, e). length s - j))"
    by simp
next
  fix U :: unicode and s :: string and j e :: nat
  assume "j < length s"
  then show "((U, s, j + 1, if isASCIISpace (s ! j) then e else j + 1), (U, s, j, e))
               \<in> measure (\<lambda>(U, s, j, e). length s - j)"
    by simp
next
  fix U :: unicode and s :: string and j e :: nat
  assume j: "j < length s"
  then have "drop j s \<noteq> []"
    by simp
  then have "1 \<le> snd (utf8DecodeRuneInString (drop j s))"
    using utf8DecodeRuneInString_size [of "drop j s"] by (metis prod.collapse)
  then show "((U, s, j + snd (utf8DecodeRuneInString (drop j s)),
                if isSpace U (fst (utf8DecodeRuneInString (drop j s))) then e
                else j + snd (utf8DecodeRuneInString (drop j s))), (U, s, j, e))
               \<in> measure (\<lambda>(U, s, j, e). length s - j)"
    using j by simp
qed

declare keepEnd.simps [simp del]

definition TrimSpace :: "unicode \<Rightarrow> string \<Rightarrow> string" where
  "TrimSpace U s = (let t = trimLeftSpace U s in take (keepEnd U t 0 0) t)"

lemma trimLeftSpace_length: "length (trimLeftSpace U s) \<le> length s"
proof (induction U s rule: trimLeftSpace.induct)
  case (1 U s)
  show ?case
    using "1.IH" by (subst trimLeftSpace.simps) (auto simp: le_diff_conv intro: le_trans)
qed

lemma TrimSpace_length: "length (TrimSpace U s) \<le> length s"
  using trimLeftSpace_length [of U s] by (simp add: TrimSpace_def Let_def)

lemma Index_bound: "Index s sub = Some i \<Longrightarrow> i + length sub \<le> length s"
proof (induction s arbitrary: i)
  case Nil
  then show ?case by (simp split: if_splits)
next
  case (Cons c t)
  show ?case
  proof (cases "HasPrefix (c # t) sub")
    case True
    then have "length (take (length sub) (c # t)) = length sub"
      unfolding HasPrefix_def by simp
    then have "length sub \<le> length (c # t)"
      by simp
    then show ?thesis using Cons.prems True by simp
  next
    case False
    then show ?thesis using Cons by auto
  qed
qed

lemma IndexByte_bound: "IndexByte s c = Some i \<Longrightarrow> i < length s"
  by (induction s arbitrary: i) (auto split: if_splits)

section \<open>harmony: the data model\<close>

text \<open>
  \<open>Role\<close>, \<open>ReasoningEffort\<close> and \<open>ContentType\<close> are string types of Go with named
  constants; a value of these types can be any string. A pointer that may be \<open>nil\<close> is an
  \<open>option\<close>. A map of tool namespaces is the list of its entries (its keys are pairwise
  different; \<open>nil\<close> and the empty map are both \<open>[]\<close>, which the code does not
  distinguish).
\<close>

type_synonym Role = string

definition RoleUser :: Role where "RoleUser = ''user''"
definition RoleAssistant :: Role where "RoleAssistant = ''assistant''"
definition RoleSystem :: Role where "RoleSystem = ''system''"
definition RoleDeveloper :: Role where "RoleDeveloper = ''developer''"
definition RoleTool :: Role where "RoleTool = ''tool''"

record Author =
  Role :: Role
  Name :: string

definition ReasoningLow :: string where "ReasoningLow = ''low''"
definition ReasoningMedium :: string where "ReasoningMedium = ''medium''"
definition ReasoningHigh :: string where "ReasoningHigh = ''high''"

record ChannelConfig =
  ValidChannels :: "string list"
  ChannelRequired :: bool

record ToolDescription =
  toolName :: string
  toolDescription :: string
  Parameters :: string

record ToolNamespaceConfig =
  nsName :: string
  nsDescription :: "string option"
  nsTools :: "ToolDescription list"

type_synonym ToolsMap = "(string \<times> ToolNamespaceConfig) list"

record SystemContent =
  ModelIdentity :: "string option"
  ReasoningEffort :: "string option"
  sysTools :: ToolsMap
  ConversationStartDate :: "string option"
  KnowledgeCutoff :: "string option"
  ChannelConfig :: "ChannelConfig option"

record DeveloperContent =
  Instructions :: "string option"
  devTools :: ToolsMap

definition ContentText :: string where "ContentText = ''text''"
definition ContentSystem :: string where "ContentSystem = ''system_content''"
definition ContentDeveloper :: string where "ContentDeveloper = ''developer_content''"

record Content =
  Type :: string
  Text :: string
  System :: "SystemContent option"
  Developer :: "DeveloperContent option"

record Message =
  Author :: Author
  Recipient :: string
  Content :: "Content list"
  Channel :: string
  ContentType :: string

record Conversation =
  Messages :: "Message list"

record RenderConversationConfig =
  AutoDropAnalysis :: bool

section \<open>harmony: header helpers\<close>

definition normalizeHeader :: "unicode \<Rightarrow> string \<Rightarrow> string" where
  "normalizeHeader U s =
    (let s1 = (if Contains s ''<|channel|>''
               then TrimSpace U (ReplaceAll s ''<|channel|>'' '' <|channel|>'') else s)
     in if Contains s1 ''<|constrain|>''
        then TrimSpace U (ReplaceAll s1 ''<|constrain|>'' '' <|constrain|>'') else s1)"

text \<open>
  The first index of a space or of \<open><\<close>, or \<open>None\<close>. The loops of \<open>splitLeadingToken\<close>
  and \<open>nextValueToken\<close> range over the code points of the string; both characters are
  ASCII, and a \<open>range\<close> loop visits every ASCII byte of a string at its own index, so the
  search is the search over the bytes.
\<close>

fun stopIndex :: "string \<Rightarrow> nat option" where
  "stopIndex [] = None"
| "stopIndex (ch # t) =
    (if ch = CHR '' '' \<or> ch = CHR ''<'' then Some 0 else map_option Suc (stopIndex t))"

definition splitLeadingToken :: "unicode \<Rightarrow> string \<Rightarrow> string \<times> string" where
  "splitLeadingToken U s =
    (let stop = (case stopIndex s of Some i \<Rightarrow> i | None \<Rightarrow> length s);
         roleToken = take stop s;
         rem = (if stop < length s then TrimSpace U (drop stop s) else [])
     in (roleToken, rem))"

definition nextValueToken :: "unicode \<Rightarrow> string \<Rightarrow> string" where
  "nextValueToken U input0 =
    (let input = TrimSpace U input0 in
     if input = [] then []
     else
       (let end = (case stopIndex input of Some i \<Rightarrow> i | None \<Rightarrow> length input);
            token = take end input
        in if HasPrefix token ''to='' \<or> HasPrefix token ''<|'' then [] else token))"

definition detectRoleAndAuthor :: "unicode \<Rightarrow> string \<Rightarrow> string \<Rightarrow> Role \<times> string" where
  "detectRoleAndAuthor U roleToken remainder =
    (let detected =
       (if roleToken = RoleUser \<or> HasPrefix roleToken (RoleUser @ '':'') then RoleUser
        else if roleToken = RoleAssistant \<or> HasPrefix roleToken (RoleAssistant @ '':'')
          then RoleAssistant
        else if roleToken = RoleSystem \<or> HasPrefix roleToken (RoleSystem @ '':'') then RoleSystem
        else if roleToken = RoleDeveloper \<or> HasPrefix roleToken (RoleDeveloper @ '':'')
          then RoleDeveloper
        else RoleTool)
     in
     if detected = RoleTool then
       (let name =
          (if HasPrefix roleToken ''tool:'' then drop (length ''tool:'') roleToken
           else if roleToken = RoleTool then nextValueToken U remainder
           else if roleToken \<noteq> [] then roleToken
           else [])
        in (detected, if name = [] then nextValueToken U remainder else name))
     else
       (let aliasPrefix = detected @ '':'' in
        (detected,
         if HasPrefix roleToken aliasPrefix then drop (length aliasPrefix) roleToken else [])))"

definition extractChannel :: "string \<Rightarrow> string" where
  "extractChannel s =
    (case Index s ''<|channel|>'' of
       Some idx \<Rightarrow>
         (let after = drop (idx + length ''<|channel|>'') s in
          case IndexByte after CHR '' '' of
            None \<Rightarrow> after
          | Some end \<Rightarrow> take end after)
     | None \<Rightarrow> [])"

definition extractRecipient :: "string \<Rightarrow> string" where
  "extractRecipient s =
    (case Index s '' to='' of
       Some idx \<Rightarrow>
         (let after = drop (idx + length '' to='') s in
          case stopIndex after of
            None \<Rightarrow> after
          | Some end \<Rightarrow> take end after)
     | None \<Rightarrow> [])"

text \<open>The three steps of \<open>scrubContentType\<close>: the role prefix, the recipient, and the
  loop over the channel annotations.\<close>

fun stripRolePrefix :: "string \<Rightarrow> string list \<Rightarrow> string" where
  "stripRolePrefix ss [] = ss"
| "stripRolePrefix ss (r # rs) =
    (if HasPrefix ss r then
       (let ss1 = drop (length r) ss in
        if HasPrefix ss1 '':'' then
          (let ss2 = drop 1 ss1 in
           case IndexByte ss2 CHR '' '' of Some sp \<Rightarrow> drop sp ss2 | None \<Rightarrow> [])
        else ss1)
     else stripRolePrefix ss rs)"

definition stripRecipient :: "unicode \<Rightarrow> string \<Rightarrow> string" where
  "stripRecipient U ss =
    (if HasPrefix ss ''to='' then
       (let after = drop (length ''to='') ss in
        case IndexByte after CHR '' '' of
          None \<Rightarrow> []
        | Some sp \<Rightarrow> TrimSpace U (drop sp after))
     else
       (case Index ss '' to='' of
          Some idx \<Rightarrow>
            (let before = take idx ss;
                 after = drop (idx + length '' to='') ss
             in case IndexByte after CHR '' '' of
                  None \<Rightarrow> TrimSpace U before
                | Some sp \<Rightarrow> TrimSpace U (before @ drop sp after))
        | None \<Rightarrow> ss))"

function stripChannels :: "unicode \<Rightarrow> string \<Rightarrow> string" where
  "stripChannels U ss =
    (case Index ss ''<|channel|>'' of
       None \<Rightarrow> ss
     | Some idx \<Rightarrow>
         (case IndexByte (drop (idx + length ''<|channel|>'') ss) CHR '' '' of
            None \<Rightarrow> stripChannels U (TrimSpace U (take idx ss))
          | Some sp \<Rightarrow>
              stripChannels U
                (TrimSpace U (take idx ss @ drop sp (drop (idx + length ''<|channel|>'') ss)))))"
  by pat_completeness auto
termination
proof (relation "measure (\<lambda>(U, ss). length ss)")
  show "wf (measure (\<lambda>(U, ss). length ss))"
    by simp
next
  fix U :: unicode and ss :: string and idx :: nat
  assume "Index ss ''<|channel|>'' = Some idx"
  then have "idx + length ''<|channel|>'' \<le> length ss"
    by (rule Index_bound)
  then have "length (take idx ss) < length ss"
    by simp
  then show "((U, TrimSpace U (take idx ss)), (U, ss)) \<in> measure (\<lambda>(U, ss). length ss)"
    using TrimSpace_length [of U "take idx ss"] by simp
next
  fix U :: unicode and ss :: string and idx sp :: nat
  assume "Index ss ''<|channel|>'' = Some idx"
  then have "idx + length ''<|channel|>'' \<le> length ss"
    by (rule Index_bound)
  then have "length (take idx ss @ drop sp (drop (idx + length ''<|channel|>'') ss)) < length ss"
    by simp
  then show "((U, TrimSpace U (take idx ss @ drop sp (drop (idx + length ''<|channel|>'') ss))),
               (U, ss)) \<in> measure (\<lambda>(U, ss). length ss)"
    using TrimSpace_length [of U "take idx ss @ drop sp (drop (idx + length ''<|channel|>'') ss)"]
    by simp
qed

declare stripChannels.simps [simp del]

definition scrubContentType :: "unicode \<Rightarrow> string \<Rightarrow> string \<Rightarrow> string" where
  "scrubContentType U roleToken remainder =
    TrimSpace U
      (stripChannels U
         (stripRecipient U
            (stripRolePrefix remainder [''assistant'', ''user'', ''system'', ''developer''])))"

section \<open>harmony: the encoding\<close>

text \<open>
  \<open>Encoding\<close>. The maps \<open>stopAll\<close> and \<open>stopAssistant\<close> are sets of token ids
  (\<open>map[uint32]struct{}\<close>): each is modelled by the list of its keys, in the order of the
  map literal. The pools of builders and buffers hold no observable state.
\<close>

record Encoding =
  name :: string
  bpe :: coreBPE
  fmt :: "(string \<times> token) list"
  idStart :: token
  idMessage :: token
  idEnd :: token
  idReturn :: token
  idCall :: token
  idConstrain :: token
  idChannel :: token
  stopAll :: "token list"
  stopAssistant :: "token list"

definition HarmonyGptOss :: string where
  "HarmonyGptOss = ''HarmonyGptOss''"

definition fmtMap :: "(string \<times> token) list" where
  "fmtMap =
    [(''<|start|>'', TokStart),
     (''<|message|>'', TokMessage),
     (''<|end|>'', TokEnd),
     (''<|return|>'', TokReturn),
     (''<|call|>'', TokCall),
     (''<|refusal|>'', 0),
     (''<|constrain|>'', TokConstrain),
     (''<|channel|>'', TokChannel)]"

text \<open>Reading a Go map without the \<open>ok\<close> flag: the zero value for a missing key.\<close>

definition mapGet :: "(string \<times> token) list \<Rightarrow> string \<Rightarrow> token" where
  "mapGet m k = (case map_of m k of Some v \<Rightarrow> v | None \<Rightarrow> 0)"

text \<open>
  \<open>LoadEncoding\<close>. The result of \<open>tokenizer.LoadO200k()\<close>, which reads the vocabulary
  from the file system or the network, is the parameter \<open>loaded\<close>; \<open>U\<close> holds the Unicode
  tables the segmenter uses.
\<close>

definition LoadEncoding :: "unicode \<Rightarrow> error + pairs \<Rightarrow> string \<Rightarrow> error + Encoding" where
  "LoadEncoding U loaded nm =
    (if nm \<noteq> HarmonyGptOss then Inl UnsupportedEncoding
     else
       (case loaded of
          Inl err \<Rightarrow> Inl err
        | Inr ps \<Rightarrow>
            Inr \<lparr>name = nm,
                 bpe = NewCoreBPE ps HarmonySpecials (NewO200kSegmenter U),
                 fmt = fmtMap,
                 idStart = mapGet fmtMap ''<|start|>'',
                 idMessage = mapGet fmtMap ''<|message|>'',
                 idEnd = mapGet fmtMap ''<|end|>'',
                 idReturn = mapGet fmtMap ''<|return|>'',
                 idCall = mapGet fmtMap ''<|call|>'',
                 idConstrain = mapGet fmtMap ''<|constrain|>'',
                 idChannel = mapGet fmtMap ''<|channel|>'',
                 stopAll = [TokReturn, TokCall, TokEnd],
                 stopAssistant = [TokReturn, TokCall]\<rparr>))"

text \<open>
  \<open>StopTokens\<close> and \<open>StopTokensForAssistantActions\<close> collect the keys of the map in a
  slice, in the order of Go's map iteration, which is not specified: of the list returned
  only the set of its elements is meaningful. Their error is always \<open>nil\<close>.
\<close>

definition StopTokens :: "Encoding \<Rightarrow> token list" where
  "StopTokens e = stopAll e"

definition StopTokensForAssistantActions :: "Encoding \<Rightarrow> token list" where
  "StopTokensForAssistantActions e = stopAssistant e"

section \<open>harmony: rendering\<close>

text \<open>
  What the renderer takes from outside the functions modelled here: the Unicode tables,
  the text that \<open>writeToolsSection\<close> writes for a map of tool namespaces that is not empty
  (it renders JSON schemas through \<open>encoding/json\<close>), and the value of
  \<open>parallelRenderEnabled()\<close>, read once from the environment variable
  \<open>HARMONY_RENDER_PARALLEL\<close>. \<open>renderPresizeEnabled()\<close> only sizes buffers.
\<close>

record platform =
  tables :: unicode
  toolsSectionText :: "ToolsMap \<Rightarrow> string"
  parallelRenderEnabled :: bool

record renderOptions =
  conversationHasFunctionTools :: bool

definition bindE :: "error + 'a \<Rightarrow> ('a \<Rightarrow> error + 'b) \<Rightarrow> error + 'b" where
  "bindE r f = (case r of Inl err \<Rightarrow> Inl err | Inr v \<Rightarrow> f v)"

definition renderFormattingToken :: "Encoding \<Rightarrow> string \<Rightarrow> token list \<Rightarrow> error + token list" where
  "renderFormattingToken e nm out =
    (if nm = ''<|start|>'' then Inr (out @ [idStart e])
     else if nm = ''<|message|>'' then Inr (out @ [idMessage e])
     else if nm = ''<|end|>'' then Inr (out @ [idEnd e])
     else if nm = ''<|return|>'' then Inr (out @ [idReturn e])
     else if nm = ''<|call|>'' then Inr (out @ [idCall e])
     else if nm = ''<|constrain|>'' then Inr (out @ [idConstrain e])
     else if nm = ''<|channel|>'' then Inr (out @ [idChannel e])
     else
       (case map_of (fmt e) nm of
          None \<Rightarrow> Inl UnmappedFormattingToken
        | Some tid \<Rightarrow> if tid = 0 then Inl UnmappedFormattingToken else Inr (out @ [tid])))"

definition renderText :: "Encoding \<Rightarrow> string \<Rightarrow> token list \<Rightarrow> token list" where
  "renderText e text out = fst (EncodeIntoOrdinary (bpe e) text out)"

definition renderContentType :: "Encoding \<Rightarrow> string \<Rightarrow> token list \<Rightarrow> token list" where
  "renderContentType e ct out =
    (if HasPrefix ct ''<|constrain|>'' then
       (let out1 = renderText e '' '' out @ [idConstrain e];
            rest = TrimPrefix ct ''<|constrain|>''
        in if rest \<noteq> [] then renderText e rest out1 else out1)
     else renderText e ('' '' @ ct) out)"

definition writeToolsSection :: "platform \<Rightarrow> ToolsMap \<Rightarrow> string" where
  "writeToolsSection P tools = (if length tools = 0 then [] else toolsSectionText P tools)"

text \<open>\<open>addSection\<close> of \<open>renderSystemContent\<close>, on the text built so far.\<close>

definition addSection :: "string \<Rightarrow> string \<Rightarrow> string" where
  "addSection body text = (if length body > 0 then body @ ''\<newline>\<newline>'' else body) @ text"

text \<open>The text that \<open>renderSystemContent\<close> builds (\<open>body.String()\<close>), before it is
  encoded.\<close>

definition systemContentBody :: "platform \<Rightarrow> SystemContent \<Rightarrow> renderOptions \<Rightarrow> string" where
  "systemContentBody P sys opts =
    (let mid = (case ModelIdentity sys of
                  Some m \<Rightarrow> if m \<noteq> [] then m
                            else ''You are ChatGPT, a large language model trained by OpenAI.''
                | None \<Rightarrow> ''You are ChatGPT, a large language model trained by OpenAI.'');
         kc = (case KnowledgeCutoff sys of
                 Some k \<Rightarrow> if k \<noteq> [] then k else ''2024-06''
               | None \<Rightarrow> ''2024-06'');
         body1 = addSection []
                   (mid @ ''\<newline>'' @ ''Knowledge cutoff: '' @ kc @
                    (case ConversationStartDate sys of
                       Some d \<Rightarrow> if d \<noteq> [] then ''\<newline>'' @ ''Current date: '' @ d else []
                     | None \<Rightarrow> []));
         eff = (case ReasoningEffort sys of
                  Some r \<Rightarrow> ToLower (tables P) r
                | None \<Rightarrow> ''medium'');
         body2 = addSection body1 (''Reasoning: '' @ eff);
         body3 = (if length (sysTools sys) > 0
                  then addSection body2 (writeToolsSection P (sysTools sys)) else body2);
         chanCfg = (case ChannelConfig sys of
                      None \<Rightarrow> \<lparr>ValidChannels = [''analysis'', ''commentary'', ''final''],
                                ChannelRequired = True\<rparr>
                    | Some c \<Rightarrow> c)
     in
     if length (ValidChannels chanCfg) > 0 then
       addSection body3
         (''# Valid channels: '' @ Join (ValidChannels chanCfg) '', '' @ ''.'' @
          (if ChannelRequired chanCfg then '' Channel must be included for every message.''
           else []) @
          (if conversationHasFunctionTools opts
           then ''\<newline>Calls to these tools must go to the commentary channel: '' @ [CHR 0x27]
                  @ ''functions'' @ [CHR 0x27] @ ''.''
           else []))
     else body3)"

definition renderSystemContent :: "platform \<Rightarrow> Encoding \<Rightarrow> SystemContent \<Rightarrow> renderOptions \<Rightarrow> token list \<Rightarrow> token list" where
  "renderSystemContent P e sys opts out = renderText e (systemContentBody P sys opts) out"

definition developerContentBody :: "platform \<Rightarrow> DeveloperContent \<Rightarrow> string" where
  "developerContentBody P dev =
    (let body1 = (case Instructions dev of
                    Some ins \<Rightarrow> if ins \<noteq> [] then ''# Instructions'' @ ''\<newline>\<newline>'' @ ins else []
                  | None \<Rightarrow> [])
     in
     if length (devTools dev) > 0 then
       (if length body1 > 0 then body1 @ ''\<newline>\<newline>'' else body1) @ writeToolsSection P (devTools dev)
     else body1)"

definition renderDeveloperContent :: "platform \<Rightarrow> Encoding \<Rightarrow> DeveloperContent \<Rightarrow> token list \<Rightarrow> token list" where
  "renderDeveloperContent P e dev out = renderText e (developerContentBody P dev) out"

text \<open>The loop over the content items, the same in \<open>renderMessage\<close> and
  \<open>renderMessageInto\<close>.\<close>

fun renderContents :: "platform \<Rightarrow> Encoding \<Rightarrow> renderOptions \<Rightarrow> Content list \<Rightarrow> token list \<Rightarrow> error + token list" where
  "renderContents P e opts [] out = Inr out"
| "renderContents P e opts (c # cs) out =
    (if Type c = ContentText then renderContents P e opts cs (renderText e (Text c) out)
     else if Type c = ContentSystem then
       (case System c of
          None \<Rightarrow> Inl NilSystemContent
        | Some sys \<Rightarrow> renderContents P e opts cs (renderSystemContent P e sys opts out))
     else if Type c = ContentDeveloper then
       (case Developer c of
          None \<Rightarrow> Inl NilDeveloperContent
        | Some dev \<Rightarrow> renderContents P e opts cs (renderDeveloperContent P e dev out))
     else Inl UnknownContentType)"

definition needsRecipient :: "Message \<Rightarrow> bool" where
  "needsRecipient msg = (Recipient msg \<noteq> [] \<and> Recipient msg \<noteq> ''all'')"

text \<open>\<open>renderMessage\<close> (used by \<open>Render\<close> and by the parallel path) encodes the parts of
  the header one by one.\<close>

definition renderMessage :: "platform \<Rightarrow> Encoding \<Rightarrow> Message \<Rightarrow> renderOptions \<Rightarrow> error + token list" where
  "renderMessage P e msg opts =
    bindE (renderFormattingToken e ''<|start|>'' []) (\<lambda>out1.
      if Role (Author msg) = RoleTool \<and> Name (Author msg) = [] then Inl ToolMessageWithoutName
      else
        (let out2 =
           (if Role (Author msg) = RoleTool then
              (if needsRecipient msg then
                 renderText e (Recipient msg)
                   (renderText e '' to='' (renderText e (Name (Author msg)) out1))
               else renderText e (Name (Author msg)) out1)
            else if Name (Author msg) = [] \<and> \<not> needsRecipient msg then
              renderText e (Role (Author msg)) out1
            else
              (let o1 = renderText e (Role (Author msg)) out1;
                   o2 = (if Name (Author msg) \<noteq> []
                         then renderText e (Name (Author msg)) (renderText e '':'' o1) else o1)
               in if needsRecipient msg
                  then renderText e (Recipient msg) (renderText e '' to='' o2) else o2))
         in
         bindE (if Channel msg \<noteq> [] then
                  bindE (renderFormattingToken e ''<|channel|>'' out2)
                    (\<lambda>oc. Inr (renderText e (Channel msg) oc))
                else Inr out2) (\<lambda>out3.
           (let out4 = (if ContentType msg \<noteq> [] then renderContentType e (ContentType msg) out3
                        else out3)
            in
            bindE (renderFormattingToken e ''<|message|>'' out4) (\<lambda>out5.
              bindE (renderContents P e opts (Content msg) out5) (\<lambda>out6.
                if Role (Author msg) = RoleAssistant \<and> Recipient msg \<noteq> [] \<and> Recipient msg \<noteq> ''all''
                then renderFormattingToken e ''<|call|>'' out6
                else renderFormattingToken e ''<|end|>'' out6))))))"

definition Render :: "platform \<Rightarrow> Encoding \<Rightarrow> Message \<Rightarrow> error + token list" where
  "Render P e msg = renderMessage P e msg \<lparr>conversationHasFunctionTools = False\<rparr>"

text \<open>\<open>renderMessageInto\<close> (the sequential path) appends to \<open>out\<close> and encodes the header
  as one string.\<close>

definition renderMessageInto :: "platform \<Rightarrow> Encoding \<Rightarrow> Message \<Rightarrow> renderOptions \<Rightarrow> token list \<Rightarrow> error + token list" where
  "renderMessageInto P e msg opts out =
    (let out1 = out @ [idStart e] in
     if Role (Author msg) = RoleTool \<and> Name (Author msg) = [] then Inl ToolMessageWithoutName
     else
       (let out2 =
          (if Role (Author msg) = RoleTool then
             (if needsRecipient msg
              then renderText e (Name (Author msg) @ '' to='' @ Recipient msg) out1
              else renderText e (Name (Author msg)) out1)
           else if Name (Author msg) = [] \<and> \<not> needsRecipient msg then
             renderText e (Role (Author msg)) out1
           else
             (let header1 = (if Name (Author msg) \<noteq> []
                             then Role (Author msg) @ '':'' @ Name (Author msg)
                             else Role (Author msg));
                  header2 = (if needsRecipient msg then header1 @ '' to='' @ Recipient msg
                             else header1)
              in renderText e header2 out1));
            out3 = (if Channel msg \<noteq> [] then renderText e (Channel msg) (out2 @ [idChannel e])
                    else out2);
            out4 = (if ContentType msg \<noteq> [] then renderContentType e (ContentType msg) out3
                    else out3);
            out5 = out4 @ [idMessage e]
        in
        bindE (renderContents P e opts (Content msg) out5) (\<lambda>out6.
          if Role (Author msg) = RoleAssistant \<and> Recipient msg \<noteq> [] \<and> Recipient msg \<noteq> ''all''
          then Inr (out6 @ [idCall e])
          else Inr (out6 @ [idEnd e]))))"

text \<open>The size estimates that decide between the sequential and the parallel path.\<close>

definition estimateToolsMapSize :: "ToolsMap \<Rightarrow> nat" where
  "estimateToolsMapSize tools =
    sum_list (map (\<lambda>(k, ns).
        length (nsName ns)
        + (case nsDescription ns of Some d \<Rightarrow> length d | None \<Rightarrow> 0)
        + sum_list (map (\<lambda>td. length (toolName td) + length (toolDescription td)
                                + length (Parameters td)) (nsTools ns)))
      tools)"

definition estimateChannelConfigSize :: "ChannelConfig \<Rightarrow> nat" where
  "estimateChannelConfigSize cfg =
    sum_list (map length (ValidChannels cfg)) + (if ChannelRequired cfg then 1 else 0)"

definition estimateSystemContentSize :: "SystemContent \<Rightarrow> nat" where
  "estimateSystemContentSize sys =
    (case ModelIdentity sys of Some m \<Rightarrow> length m | None \<Rightarrow> 0)
    + (case ReasoningEffort sys of Some r \<Rightarrow> length r | None \<Rightarrow> 0)
    + (case ConversationStartDate sys of Some d \<Rightarrow> length d | None \<Rightarrow> 0)
    + (case KnowledgeCutoff sys of Some k \<Rightarrow> length k | None \<Rightarrow> 0)
    + (case ChannelConfig sys of Some c \<Rightarrow> estimateChannelConfigSize c | None \<Rightarrow> 0)
    + estimateToolsMapSize (sysTools sys)"

definition estimateDeveloperContentSize :: "DeveloperContent \<Rightarrow> nat" where
  "estimateDeveloperContentSize dev =
    (case Instructions dev of Some i \<Rightarrow> length i | None \<Rightarrow> 0)
    + estimateToolsMapSize (devTools dev)"

definition estimateContentSize :: "Content \<Rightarrow> nat" where
  "estimateContentSize c =
    (if Type c = ContentText then length (Text c)
     else if Type c = ContentSystem then
       (case System c of Some sys \<Rightarrow> estimateSystemContentSize sys | None \<Rightarrow> 0)
     else if Type c = ContentDeveloper then
       (case Developer c of Some dev \<Rightarrow> estimateDeveloperContentSize dev | None \<Rightarrow> 0)
     else 0)"

definition estimateMessageSize :: "Message \<Rightarrow> nat" where
  "estimateMessageSize msg =
    length (Name (Author msg)) + length (Channel msg) + length (ContentType msg)
    + (if Recipient msg \<noteq> [] \<and> Recipient msg \<noteq> ''all'' then length (Recipient msg) else 0)
    + sum_list (map estimateContentSize (Content msg))"

definition parallelRenderMinBytes :: nat where
  "parallelRenderMinBytes = 8 * 1024"

definition parallelRenderMinMessages :: nat where
  "parallelRenderMinMessages = 2"

fun reachesMinBytes :: "Message list \<Rightarrow> nat list \<Rightarrow> nat \<Rightarrow> bool" where
  "reachesMinBytes msgs [] acc = False"
| "reachesMinBytes msgs (idx # rest) acc =
    (if acc + estimateMessageSize (msgs ! idx) \<ge> parallelRenderMinBytes then True
     else reachesMinBytes msgs rest (acc + estimateMessageSize (msgs ! idx)))"

definition shouldParallelRender :: "platform \<Rightarrow> Message list \<Rightarrow> nat list \<Rightarrow> bool" where
  "shouldParallelRender P msgs indices =
    (if \<not> parallelRenderEnabled P then False
     else if length indices < parallelRenderMinMessages then False
     else reachesMinBytes msgs indices 0)"

text \<open>
  The first pass of \<open>RenderConversation\<close> over the messages, from index \<open>i\<close>:
  \<open>lastAssistantFinal\<close>, \<open>firstFinal\<close> (\<open>-1\<close> when there is none so far) and
  \<open>hasFunctionTools\<close>.
\<close>

definition declaresFunctionTools :: "Content \<Rightarrow> bool" where
  "declaresFunctionTools c =
    (Type c = ContentDeveloper \<and>
     (case Developer c of
        None \<Rightarrow> False
      | Some dev \<Rightarrow>
          (case map_of (devTools dev) ''functions'' of
             None \<Rightarrow> False
           | Some ns \<Rightarrow> length (nsTools ns) > 0)))"

fun analyse :: "Message list \<Rightarrow> nat \<Rightarrow> bool \<times> int \<times> bool \<Rightarrow> bool \<times> int \<times> bool" where
  "analyse [] i st = st"
| "analyse (m # ms) i (lastAssistantFinal, firstFinal, hasFunctionTools) =
    analyse ms (i + 1)
      (if Role (Author m) = RoleAssistant then Channel m = ''final'' else lastAssistantFinal,
       if Channel m = ''final'' \<and> firstFinal = - 1 then int i else firstFinal,
       if \<not> hasFunctionTools then list_ex declaresFunctionTools (Content m)
       else hasFunctionTools)"

text \<open>The indices to render: \<open>renderIdx\<close> of the source.\<close>

definition renderIndices :: "Message list \<Rightarrow> bool \<Rightarrow> int \<Rightarrow> nat list" where
  "renderIndices msgs shouldDrop firstFinal =
    filter (\<lambda>i. \<not> (shouldDrop \<and> firstFinal \<ge> 0 \<and> int i < firstFinal
                     \<and> Channel (msgs ! i) = ''analysis''))
      [0 ..< length msgs]"

fun renderSequential :: "platform \<Rightarrow> Encoding \<Rightarrow> Message list \<Rightarrow> renderOptions \<Rightarrow> nat list \<Rightarrow> token list \<Rightarrow> error + token list" where
  "renderSequential P e msgs opts [] out = Inr out"
| "renderSequential P e msgs opts (idx # rest) out =
    bindE (renderMessageInto P e (msgs ! idx) opts out) (renderSequential P e msgs opts rest)"

text \<open>
  The parallel path renders every message of \<open>renderIdx\<close> with \<open>renderMessage\<close> in a
  goroutine of its own and appends the results in the order of the slots. When several
  messages fail, the source returns the error that was recorded first, whichever
  goroutine that was; the model returns the error of the first failing slot.
\<close>

fun renderParallel :: "platform \<Rightarrow> Encoding \<Rightarrow> Message list \<Rightarrow> renderOptions \<Rightarrow> nat list \<Rightarrow> error + token list" where
  "renderParallel P e msgs opts [] = Inr []"
| "renderParallel P e msgs opts (idx # rest) =
    bindE (renderMessage P e (msgs ! idx) opts) (\<lambda>toks.
      bindE (renderParallel P e msgs opts rest) (\<lambda>more. Inr (toks @ more)))"

definition RenderConversation :: "platform \<Rightarrow> Encoding \<Rightarrow> Conversation \<Rightarrow> RenderConversationConfig option \<Rightarrow> error + token list" where
  "RenderConversation P e conv cfg =
    (let autoDrop = (case cfg of None \<Rightarrow> True | Some c \<Rightarrow> AutoDropAnalysis c);
         (lastAssistantFinal, firstFinal, hasFunctionTools) =
            analyse (Messages conv) 0 (False, - 1, False);
         shouldDrop = (autoDrop \<and> lastAssistantFinal);
         renderIdx = renderIndices (Messages conv) shouldDrop firstFinal
     in
     if length renderIdx = 0 then Inr []
     else
       (let opts = \<lparr>conversationHasFunctionTools = hasFunctionTools\<rparr> in
        if shouldParallelRender P (Messages conv) renderIdx
        then renderParallel P e (Messages conv) opts renderIdx
        else renderSequential P e (Messages conv) opts renderIdx []))"

definition RenderConversationForCompletion :: "platform \<Rightarrow> Encoding \<Rightarrow> Conversation \<Rightarrow> Role \<Rightarrow> RenderConversationConfig option \<Rightarrow> error + token list" where
  "RenderConversationForCompletion P e conv next cfg =
    bindE (RenderConversation P e conv cfg) (\<lambda>out.
      Inr (renderText e next (out @ [idStart e])))"

definition RenderConversationForTraining :: "platform \<Rightarrow> Encoding \<Rightarrow> Conversation \<Rightarrow> RenderConversationConfig option \<Rightarrow> error + token list" where
  "RenderConversationForTraining P e conv cfg =
    (if length (Messages conv) = 0 then Inr []
     else
       bindE (RenderConversation P e conv cfg) (\<lambda>out.
         (let lastMsg = Messages conv ! (length (Messages conv) - 1) in
          if Role (Author lastMsg) = RoleAssistant \<and> Channel lastMsg = ''final'' then
            (if length out = 0 then Inr out
             else Inr (out[length out - 1 := idReturn e]))
          else Inr out)))"

section \<open>harmony: the streaming parser\<close>

datatype streamState = stExpectStart | stHeader | stContent

record parsedHeader =
  author :: Author
  recipient :: string
  channel :: string
  contentType :: string

text \<open>
  \<open>StreamParser\<close>; its field \<open>enc\<close> is \<open>penc\<close> here (\<open>enc\<close> names the forward map of the
  BPE core). A method that changes the parser and returns an error is a function to the
  error (\<open>None\<close> for \<open>nil\<close>) and the parser after the call.
\<close>

record StreamParser =
  penc :: Encoding
  nextRole :: "Role option"
  state :: streamState
  tokens :: "token list"
  messages :: "Message list"
  headerToks :: "token list"
  contentToks :: "token list"
  lastDeltaBytes :: string
  scratch :: string

definition NewStreamParser :: "Encoding \<Rightarrow> Role option \<Rightarrow> StreamParser" where
  "NewStreamParser e role =
    \<lparr>penc = e, nextRole = role,
     state = (if role \<noteq> None then stHeader else stExpectStart),
     tokens = [], messages = [], headerToks = [], contentToks = [],
     lastDeltaBytes = [], scratch = []\<rparr>"

definition parseHeaderFromTokens :: "unicode \<Rightarrow> StreamParser \<Rightarrow> token list \<Rightarrow> error + parsedHeader" where
  "parseHeaderFromTokens U p header =
    (case DecodeUTF8 (bpe (penc p)) header of
       Inl err \<Rightarrow> Inl err
     | Inr s0 \<Rightarrow>
         (let s = normalizeHeader U s0;
              (roleToken, remainder) = splitLeadingToken U s;
              (detectedRole, nameFromHeader) = detectRoleAndAuthor U roleToken remainder;
              author0 = \<lparr>Role = detectedRole, Name = nameFromHeader\<rparr>;
              author1 =
                (case nextRole p of
                   None \<Rightarrow> author0
                 | Some r \<Rightarrow>
                     (let a = author0\<lparr>Role := r\<rparr> in
                      if Role a = RoleTool \<and> Name a = [] then a\<lparr>Name := nameFromHeader\<rparr> else a));
              ct = scrubContentType U roleToken remainder
          in Inr \<lparr>author = author1,
                  recipient = extractRecipient s,
                  channel = extractChannel s,
                  contentType = (if ct \<noteq> [] then ct else [])\<rparr>))"

definition finalizeMessage :: "StreamParser \<Rightarrow> error option \<times> StreamParser" where
  "finalizeMessage p =
    (if length (messages p) = 0 then (None, p)
     else
       (let idx = length (messages p) - 1 in
        case DecodeUTF8 (bpe (penc p)) (contentToks p) of
          Inl err \<Rightarrow> (Some err, p)
        | Inr text \<Rightarrow>
            (None,
             p\<lparr>messages := (messages p)
                  [idx := (messages p ! idx)
                     \<lparr>Content := [\<lparr>Type = ContentText, Text = text, System = None,
                                   Developer = None\<rparr>]\<rparr>],
               headerToks := [], contentToks := []\<rparr>)))"

definition Process :: "unicode \<Rightarrow> StreamParser \<Rightarrow> token \<Rightarrow> error option \<times> StreamParser" where
  "Process U p0 token =
    (let p = p0\<lparr>tokens := tokens p0 @ [token]\<rparr> in
     case state p of
       stExpectStart \<Rightarrow>
         (if token = TokStart then (None, p\<lparr>headerToks := [], state := stHeader\<rparr>)
          else (Some UnexpectedTokenExpectingStart, p))
     | stHeader \<Rightarrow>
         (if token = TokStart then (None, p)
          else if token = TokMessage then
            (case parseHeaderFromTokens U p (headerToks p) of
               Inl err \<Rightarrow> (Some err, p)
             | Inr hdr \<Rightarrow>
                 (None,
                  p\<lparr>nextRole := None, contentToks := [],
                    messages := messages p @
                      [\<lparr>Author = author hdr, Recipient = recipient hdr, Content = [],
                        Channel = channel hdr, ContentType = contentType hdr\<rparr>],
                    state := stContent\<rparr>))
          else (None, p\<lparr>headerToks := headerToks p @ [token]\<rparr>))
     | stContent \<Rightarrow>
         (if token \<in> set (stopAll (penc p)) then
            (case finalizeMessage p of
               (Some err, p') \<Rightarrow> (Some err, p')
             | (None, p') \<Rightarrow> (None, p'\<lparr>state := stExpectStart\<rparr>))
          else
            (let p1 = p\<lparr>contentToks := contentToks p @ [token], scratch := []\<rparr> in
             case DecodeBytesInto (bpe (penc p1)) (scratch p1) [token] of
               Inl err \<Rightarrow> (Some err, p1)
             | Inr bs \<Rightarrow> (None, p1\<lparr>scratch := bs, lastDeltaBytes := bs\<rparr>))))"

definition ProcessEOS :: "StreamParser \<Rightarrow> error option \<times> StreamParser" where
  "ProcessEOS p = (if state p = stContent then finalizeMessage p else (None, p))"

definition LastContentDelta :: "StreamParser \<Rightarrow> string" where
  "LastContentDelta p = lastDeltaBytes p"

definition CurrentRole :: "StreamParser \<Rightarrow> Role option" where
  "CurrentRole p =
    (if state p = stContent then
       (if length (messages p) = 0 then None
        else Some (Role (Author (messages p ! (length (messages p) - 1)))))
     else nextRole p)"

fun processAll :: "unicode \<Rightarrow> StreamParser \<Rightarrow> token list \<Rightarrow> error option \<times> StreamParser" where
  "processAll U p [] = (None, p)"
| "processAll U p (t # ts) =
    (case Process U p t of
       (Some err, p') \<Rightarrow> (Some err, p')
     | (None, p') \<Rightarrow> processAll U p' ts)"

definition ParseMessagesFromCompletionTokens :: "unicode \<Rightarrow> Encoding \<Rightarrow> token list \<Rightarrow> Role option \<Rightarrow> error + Message list" where
  "ParseMessagesFromCompletionTokens U e toks role =
    (case processAll U (NewStreamParser e role) toks of
       (Some err, p) \<Rightarrow> Inl err
     | (None, p) \<Rightarrow>
         (case ProcessEOS p of
            (Some err, p') \<Rightarrow> Inl err
          | (None, p') \<Rightarrow> Inr (messages p')))"

section \<open>A small instance\<close>

text \<open>
  A vocabulary with one token for each byte (rank = byte value), the encoding loaded from
  it, and a platform: concrete inputs on which the definitions can be run.
\<close>

definition byteVocab :: pairs where
  "byteVocab = map (\<lambda>n. ([char_of n], of_nat n)) [0 ..< 256]"

definition demoEncoding :: Encoding where
  "demoEncoding = projr (LoadEncoding asciiUnicode (Inr byteVocab) HarmonyGptOss)"

definition demoPlatform :: platform where
  "demoPlatform =
     \<lparr>tables = asciiUnicode, toolsSectionText = (\<lambda>tools. ''# Tools''),
      parallelRenderEnabled = True\<rparr>"

(*DEFS-END*)

section \<open>Properties of the segmenter\<close>

subsection \<open>Every index returned lies inside the string\<close>

lemma scanRun_ge: "j \<le> fst (scanRun okByte okRune s j had)"
proof (induction okByte okRune s j had rule: scanRun.induct)
  case (1 okByte okRune s j had)
  show ?case
    using "1.IH" by (subst scanRun.simps) (auto simp: le_Suc_eq dest: order_trans [rotated])
qed

lemma scanRun_le: "j \<le> length s \<Longrightarrow> fst (scanRun okByte okRune s j had) \<le> length s"
proof (induction okByte okRune s j had rule: scanRun.induct)
  case (1 okByte okRune s j had)
  show ?case
  proof (cases "j < length s")
    case False
    then show ?thesis using "1.prems" by (subst scanRun.simps) simp
  next
    case True
    then have ne: "drop j s \<noteq> []" by simp
    have "snd (utf8DecodeRuneInString (drop j s)) \<le> length (drop j s)"
      using utf8DecodeRuneInString_size [OF ne] by (metis prod.collapse)
    then have b: "j + snd (utf8DecodeRuneInString (drop j s)) \<le> length s"
      using True by simp
    show ?thesis
      using True "1.IH" b by (subst scanRun.simps) auto
  qed
qed

lemma numbersLoop_le: "j \<le> length s \<Longrightarrow> fst (numbersLoop U s j c) \<le> length s"
proof (induction U s j c rule: numbersLoop.induct)
  case (1 U s j c)
  show ?case
  proof (cases "j < length s")
    case False
    then show ?thesis using "1.prems" by (subst numbersLoop.simps) simp
  next
    case True
    then have ne: "drop j s \<noteq> []" by simp
    have "snd (utf8DecodeRuneInString (drop j s)) \<le> length (drop j s)"
      using utf8DecodeRuneInString_size [OF ne] by (metis prod.collapse)
    then have b: "j + snd (utf8DecodeRuneInString (drop j s)) \<le> length s"
      using True by simp
    show ?thesis
      using True "1.IH" b by (subst numbersLoop.simps) auto
  qed
qed

lemma find_suffix_le:
  "find (hasCaseInsensitiveSuffixAt s k) xs = Some suf \<Longrightarrow> k + length suf \<le> length s"
  by (induction xs) (auto simp: hasCaseInsensitiveSuffixAt_def split: if_splits)

lemma matchContraction_le: "i \<le> length s \<Longrightarrow> matchContraction s i \<le> length s"
  by (auto simp: matchContraction_def split: option.splits dest: find_suffix_le)

lemma ruleLettersWithContraction_le:
  "i \<le> length s \<Longrightarrow> ruleLettersWithContraction U s i \<le> length s"
  by (simp add: ruleLettersWithContraction_def Let_def consumeLetterRun_def
      scanRun_le matchContraction_le)

lemma decode_step_le:
  "i < length s \<Longrightarrow> i + snd (utf8DecodeRuneInString (drop i s)) \<le> length s"
proof -
  assume i: "i < length s"
  then have ne: "drop i s \<noteq> []" by simp
  have "snd (utf8DecodeRuneInString (drop i s)) \<le> length (drop i s)"
    using utf8DecodeRuneInString_size [OF ne] by (metis prod.collapse)
  then show ?thesis using i by simp
qed

lemma ruleLettersWithPrefixAndContraction_le:
  assumes "i < length s"
  shows "ruleLettersWithPrefixAndContraction U s i \<le> length s"
proof -
  have a: "i + snd (utf8DecodeRuneInString (drop i s)) \<le> length s"
    using assms by (rule decode_step_le)
  have b: "i + 1 \<le> length s" using assms by simp
  show ?thesis
    using assms a b
    by (auto simp: ruleLettersWithPrefixAndContraction_def Let_def consumeLetterRun_def
        scanRun_le matchContraction_le ruleLettersWithContraction_le split: prod.splits if_splits)
qed

lemma ruleNumbers_le: "i \<le> length s \<Longrightarrow> ruleNumbers U s i \<le> length s"
  using numbersLoop_le [of i s U 0]
  by (auto simp: ruleNumbers_def Let_def split: prod.splits)

lemma ruleWhitespace_le: "i \<le> length s \<Longrightarrow> ruleWhitespace U s i \<le> length s"
  by (simp add: ruleWhitespace_def Let_def scanRun_le)

lemma scanRun_le_pair:
  "scanRun okByte okRune s j had = (x, y) \<Longrightarrow> j \<le> length s \<Longrightarrow> x \<le> length s"
  using scanRun_le [of j s okByte okRune had] by simp

lemma ruleNewlines_le:
  assumes "i \<le> length s"
  shows "ruleNewlines U s i \<le> length s"
proof -
  let ?j1 = "fst (scanRun (\<lambda>b. \<not> (\<not> isASCIISpace b \<or> b = CHR 0x0D \<or> b = CHR 0x0A))
                     (\<lambda>r. \<not> (\<not> isSpace U r \<or> r = 0x0D \<or> r = 0x0A)) s i False)"
  have j1: "?j1 \<le> length s"
    using assms by (rule scanRun_le)
  obtain j2 h where j2: "scanRun (\<lambda>b. \<not> (b \<noteq> CHR 0x0D \<and> b \<noteq> CHR 0x0A))
                        (\<lambda>r. \<not> (r \<noteq> 0x0D \<and> r \<noteq> 0x0A)) s ?j1 False = (j2, h)"
    by (cases "scanRun (\<lambda>b. \<not> (b \<noteq> CHR 0x0D \<and> b \<noteq> CHR 0x0A))
                        (\<lambda>r. \<not> (r \<noteq> 0x0D \<and> r \<noteq> 0x0A)) s ?j1 False") auto
  have "j2 \<le> length s"
    using j2 j1 by (rule scanRun_le_pair)
  then have "fst (scanRun (\<lambda>b. \<not> (b \<noteq> CHR 0x0D \<and> b \<noteq> CHR 0x0A))
                 (\<lambda>r. \<not> (r \<noteq> 0x0D \<and> r \<noteq> 0x0A)) s j2 False) \<le> length s"
    by (rule scanRun_le)
  then show ?thesis
    using assms j2 unfolding ruleNewlines_def Let_def by (simp split: prod.splits)
qed

lemma decode_step_le_pair:
  "utf8DecodeRuneInString (drop j s) = (r, sz) \<Longrightarrow> j < length s \<Longrightarrow> j + sz \<le> length s"
  using decode_step_le [of j s] by simp

lemma punctTail_le:
  assumes "j \<le> length s"
  shows "(if j < length s then
       (if bv (s ! j) < RuneSelf then
          (if s ! j = CHR 0x0D \<or> s ! j = CHR 0x0A \<or> s ! j = CHR ''/'' then j + 1 else j)
        else
          (case utf8DecodeRuneInString (drop j s) of (r, sz) \<Rightarrow>
           if r = 0x0D \<or> r = 0x0A \<or> r = 0x2F then j + sz else j))
     else j) \<le> length s"
proof (cases "j < length s")
  case True
  then show ?thesis
    by (auto split: prod.splits dest: decode_step_le_pair)
next
  case False
  then show ?thesis using assms by simp
qed

lemma punctBody_le:
  assumes "i \<le> length s" and "j0 \<le> length s"
  shows "(case scanRun okB okR s j0 False of (j, had) \<Rightarrow>
     if \<not> had then i
     else if j < length s then
       (if bv (s ! j) < RuneSelf then
          (if s ! j = CHR 0x0D \<or> s ! j = CHR 0x0A \<or> s ! j = CHR ''/'' then j + 1 else j)
        else
          (case utf8DecodeRuneInString (drop j s) of (r, sz) \<Rightarrow>
           if r = 0x0D \<or> r = 0x0A \<or> r = 0x2F then j + sz else j))
     else j) \<le> length s"
proof -
  obtain j h where jh: "scanRun okB okR s j0 False = (j, h)"
    by (cases "scanRun okB okR s j0 False") auto
  have j: "j \<le> length s"
    using jh assms(2) by (rule scanRun_le_pair)
  show ?thesis
  proof (cases h)
    case True
    then show ?thesis
      unfolding jh prod.case using punctTail_le [OF j] by simp
  next
    case False
    then show ?thesis
      unfolding jh prod.case using assms(1) by simp
  qed
qed

lemma rulePunctRun_le:
  assumes "i \<le> length s"
  shows "rulePunctRun U s i \<le> length s"
  unfolding rulePunctRun_def Let_def
proof (rule punctBody_le [OF assms])
  show "(if i < length s
     then if bv (s ! i) < RuneSelf then if isASCIISpace (s ! i) then i + 1 else i
          else case utf8DecodeRuneInString (drop i s) of
               (r, sz) \<Rightarrow> if isSpace U r then i + sz else i
     else i) \<le> length s"
    using assms by (auto split: prod.splits dest: decode_step_le_pair)
qed

lemma Next_le_length: "i \<le> length s \<Longrightarrow> Next U s i \<le> length s"
  unfolding Next_def Let_def
  using ruleLettersWithPrefixAndContraction_le [of i s U] ruleLettersWithContraction_le [of i s U]
    ruleNumbers_le [of i s U] rulePunctRun_le [of i s U] ruleNewlines_le [of i s U]
    ruleWhitespace_le [of i s U]
  by auto

lemma Next_advances: "i < length s \<Longrightarrow> i < Next U s i"
  by (simp add: Next_def Let_def)

text \<open>
  Claim C6 (segmentation progress). As stated, for every string and every index the
  returned index is strictly greater than the index given. \<open>Next\<close> starts with the guard
  \<open>if i >= len(s) { return i }\<close>: at the end of the string (and on the empty string) it
  returns its argument.
\<close>

theorem C6_counterexample_Next_at_end:
  "\<not> (\<forall>U s i. i < Next U s i)"
proof
  assume "\<forall>U s i. i < Next U s i"
  then have "0 < Next asciiUnicode [] 0"
    by blast
  then show False
    by (simp add: Next_def)
qed

text \<open>
  Claim C6, amended: for every string \<open>s\<close> and every index \<open>i < len(s)\<close>, \<open>Next(s, i)\<close> is
  strictly greater than \<open>i\<close>.
\<close>

theorem C6_Next_progress:
  "i < length s \<Longrightarrow> i < Next U s i"
  by (rule Next_advances)

theorem C6_Next_progress_witness:
  "(5::nat) < length ''hello   world'' \<and> 5 < Next asciiUnicode ''hello   world'' 5
   \<and> Next asciiUnicode ''hello   world'' 5 = 8"
proof -
  have h: "(5::nat) < length ''hello   world''"
    by simp
  have v: "Next asciiUnicode ''hello   world'' 5 = 8"
    by code_simp
  show ?thesis
    using h C6_Next_progress [OF h, of asciiUnicode] v by simp
qed

section \<open>Properties of the encoding\<close>

lemma LoadEncoding_demo:
  "LoadEncoding asciiUnicode (Inr byteVocab) HarmonyGptOss = Inr demoEncoding"
  by (simp add: demoEncoding_def LoadEncoding_def)

text \<open>
  Claim C7 (stop-token sets). For every encoding that \<open>LoadEncoding\<close> constructs, the ids
  returned by \<open>StopTokens\<close> are exactly 200002, 200007 and 200012, and those returned by
  \<open>StopTokensForAssistantActions\<close> are exactly 200002 and 200012.
\<close>

theorem C7_stop_token_sets:
  "LoadEncoding U loaded nm = Inr e \<Longrightarrow>
     set (StopTokens e) = {200002, 200007, 200012}
     \<and> set (StopTokensForAssistantActions e) = {200002, 200012}"
  by (auto simp: LoadEncoding_def StopTokens_def StopTokensForAssistantActions_def
      TokReturn_def TokCall_def TokEnd_def split: if_splits sum.splits)

theorem C7_stop_token_sets_witness:
  "LoadEncoding asciiUnicode (Inr byteVocab) HarmonyGptOss = Inr demoEncoding
   \<and> set (StopTokens demoEncoding) = {200002, 200007, 200012}
   \<and> set (StopTokensForAssistantActions demoEncoding) = {200002, 200012}"
  using C7_stop_token_sets [OF LoadEncoding_demo] LoadEncoding_demo by simp

section \<open>Properties of the renderer\<close>

text \<open>
  Claim C9 (default configuration). For every conversation, \<open>RenderConversation\<close> with a
  \<open>nil\<close> configuration returns what it returns with a configuration whose
  \<open>AutoDropAnalysis\<close> is true.
\<close>

theorem C9_nil_config_is_auto_drop:
  "RenderConversation P e conv None
     = RenderConversation P e conv (Some \<lparr>AutoDropAnalysis = True\<rparr>)"
  by (simp add: RenderConversation_def)

text \<open>
  Claim C8 (defaults of the system body). For the system content with no model identity,
  no knowledge cutoff, no start date, no reasoning effort, no tools and no channel
  configuration, in a conversation that declares no function tools, the body is exactly
  the text below. And for every system content and every options, the body is
  \<open>pre\<close>, a blank line, the line \<open>Reasoning: \<close> followed by the effort, and \<open>post\<close>,
  where \<open>post\<close> is empty or starts with a blank line and \<open>pre\<close> and \<open>post\<close> do not depend
  on the effort; the effort written is \<open>medium\<close> when none is set and \<open>strings.ToLower\<close>
  of the effort when one is set.
\<close>

theorem C8_system_body_defaults:
  "systemContentBody P
     \<lparr>ModelIdentity = None, ReasoningEffort = None, sysTools = [],
      ConversationStartDate = None, KnowledgeCutoff = None, ChannelConfig = None\<rparr>
     \<lparr>conversationHasFunctionTools = False\<rparr>
   = ''You are ChatGPT, a large language model trained by OpenAI.\<newline>Knowledge cutoff: 2024-06\<newline>\<newline>Reasoning: medium\<newline>\<newline># Valid channels: analysis, commentary, final. Channel must be included for every message.''
   \<and> (\<exists>pre post.
        systemContentBody P (sys\<lparr>ReasoningEffort := None\<rparr>) opts
          = pre @ ''\<newline>\<newline>'' @ ''Reasoning: '' @ ''medium'' @ post
      \<and> (\<forall>r. systemContentBody P (sys\<lparr>ReasoningEffort := Some r\<rparr>) opts
          = pre @ ''\<newline>\<newline>'' @ ''Reasoning: '' @ ToLower (tables P) r @ post)
      \<and> (post = [] \<or> take 2 post = ''\<newline>\<newline>''))"
proof -
  define mid where "mid = (case ModelIdentity sys of
                  Some m \<Rightarrow> if m \<noteq> [] then m
                            else ''You are ChatGPT, a large language model trained by OpenAI.''
                | None \<Rightarrow> ''You are ChatGPT, a large language model trained by OpenAI.'')"
  define kc where "kc = (case KnowledgeCutoff sys of
                 Some k \<Rightarrow> if k \<noteq> [] then k else ''2024-06''
               | None \<Rightarrow> ''2024-06'')"
  define pre where "pre = mid @ ''\<newline>'' @ ''Knowledge cutoff: '' @ kc @
                    (case ConversationStartDate sys of
                       Some d \<Rightarrow> if d \<noteq> [] then ''\<newline>'' @ ''Current date: '' @ d else []
                     | None \<Rightarrow> [])"
  define chanCfg where "chanCfg = (case ChannelConfig sys of
                      None \<Rightarrow> \<lparr>ValidChannels = [''analysis'', ''commentary'', ''final''],
                                ChannelRequired = True\<rparr>
                    | Some c \<Rightarrow> c)"
  define post where "post =
     (if length (sysTools sys) > 0 then ''\<newline>\<newline>'' @ writeToolsSection P (sysTools sys) else [])
     @ (if length (ValidChannels chanCfg) > 0 then
         ''\<newline>\<newline>'' @ (''# Valid channels: '' @ Join (ValidChannels chanCfg) '', '' @ ''.'' @
          (if ChannelRequired chanCfg then '' Channel must be included for every message.''
           else []) @
          (if conversationHasFunctionTools opts
           then ''\<newline>Calls to these tools must go to the commentary channel: '' @ [CHR 0x27]
                  @ ''functions'' @ [CHR 0x27] @ ''.''
           else []))
        else [])"
  have shape: "systemContentBody P (sys\<lparr>ReasoningEffort := eff\<rparr>) opts
      = pre @ ''\<newline>\<newline>'' @ ''Reasoning: ''
        @ (case eff of Some r \<Rightarrow> ToLower (tables P) r | None \<Rightarrow> ''medium'') @ post" for eff
    unfolding systemContentBody_def addSection_def Let_def
      mid_def [symmetric] kc_def [symmetric]
    by (simp add: pre_def post_def chanCfg_def mid_def kc_def)
  have p: "post = [] \<or> take 2 post = ''\<newline>\<newline>''"
    by (simp add: post_def)
  have d: "systemContentBody P
     \<lparr>ModelIdentity = None, ReasoningEffort = None, sysTools = [],
      ConversationStartDate = None, KnowledgeCutoff = None, ChannelConfig = None\<rparr>
     \<lparr>conversationHasFunctionTools = False\<rparr>
   = ''You are ChatGPT, a large language model trained by OpenAI.\<newline>Knowledge cutoff: 2024-06\<newline>\<newline>Reasoning: medium\<newline>\<newline># Valid channels: analysis, commentary, final. Channel must be included for every message.''"
    by (simp add: systemContentBody_def addSection_def)
  show ?thesis
    using d shape [of None] shape [of "Some r" for r] p
    by (intro conjI exI [of _ pre] exI [of _ post]) simp_all
qed


section \<open>Properties of the streaming parser\<close>

text \<open>
  Claim C3 (stray \<open><|start|>\<close> in the header). The claim: only a parser constructed with a
  role hint ignores \<open><|start|>\<close> in its first header, and for a parser constructed without
  a hint a \<open><|start|>\<close> received in state \<open>Header\<close> is a fatal parse error. The branch of
  \<open>Process\<close> carries the comment "Ignore stray start tokens when beginning in Header due to
  role hint", but tests the token only: a parser constructed without a hint that has
  received \<open><|start|>\<close> (and so is in \<open>Header\<close>) accepts a second \<open><|start|>\<close> without an
  error, stays in \<open>Header\<close> and leaves the header buffer as it is.
\<close>

theorem C3_stray_start_without_hint_is_ignored:
  "Process U (snd (Process U (NewStreamParser e None) TokStart)) TokStart
     = (None, (NewStreamParser e None)\<lparr>tokens := [TokStart, TokStart], state := stHeader\<rparr>)"
  by (simp add: Process_def NewStreamParser_def Let_def)

subsection \<open>Special ids and the rank table\<close>

lemma tokenStore_fold_length:
  "length (foldl (\<lambda>tmp (b, tid). if tmp ! unat tid = None then tmp[unat tid := Some b] else tmp)
     init ps) = length init"
  by (induction ps arbitrary: init) (auto split: prod.splits)

lemma maxID_bound:
  "\<forall>r \<in> snd ` set ps. r < B \<Longrightarrow> m < B \<Longrightarrow>
     foldl (\<lambda>m (b, tid). if tid > m then tid else m) m ps < (B :: Rank)"
  by (induction ps arbitrary: m) (auto split: prod.splits)

lemma AppendInto_above_ranks:
  assumes "\<forall>r \<in> snd ` set ps. r < B" and "0 < B" and "B \<le> t"
  shows "AppendInto (newTokenStore ps) dst t = None"
proof -
  let ?m = "foldl (\<lambda>m (b, tid). if tid > m then tid else m) 0 ps"
  have "?m < B"
    using assms(1,2) by (rule maxID_bound)
  then have "?m < t"
    using assms(3) by simp
  then have "unat ?m < unat t"
    by (simp add: word_less_nat_alt)
  then have "length (arr (newTokenStore ps)) \<le> unat t"
    by (simp add: newTokenStore_def Let_def tokenStore_fold_length)
  then show ?thesis
    by (simp add: AppendInto_def)
qed

lemma specialDec_fold:
  "distinct (map snd xs) \<Longrightarrow> (lit, t) \<in> set xs \<Longrightarrow>
     foldl (\<lambda>m (k, v). m(v \<mapsto> k)) m0 xs t = Some lit"
proof (induction xs arbitrary: m0 rule: rev_induct)
  case Nil
  then show ?case by simp
next
  case (snoc x xs)
  obtain k v where x: "x = (k, v)" by (cases x) auto
  have step: "foldl (\<lambda>m (k, v). m(v \<mapsto> k)) m0 (xs @ [x])
      = (foldl (\<lambda>m (k, v). m(v \<mapsto> k)) m0 xs)(v \<mapsto> k)"
    by (simp add: x)
  show ?case
  proof (cases "(lit, t) = x")
    case True
    then show ?thesis unfolding step using x by simp
  next
    case False
    then have mem: "(lit, t) \<in> set xs" using snoc.prems(2) by simp
    then have "t \<in> snd ` set xs" by force
    then have "v \<noteq> t" using snoc.prems(1) x by auto
    moreover have "foldl (\<lambda>m (k, v). m(v \<mapsto> k)) m0 xs t = Some lit"
      using snoc.prems(1) mem by (intro snoc.IH) simp_all
    ultimately show ?thesis unfolding step by simp
  qed
qed

lemma unat_reserved: "n < 2 ^ 32 \<Longrightarrow> unat (of_nat n :: 32 word) = n"
  by (rule of_nat_inverse [OF refl]) simp

lemma namedSpecials_ids:
  "map snd namedSpecials = [199998, 199999, 200002, 200003, 200005, 200006, 200007, 200008, 200012]"
  by (simp add: namedSpecials_def TokStartOfText_def TokEndOfText_def TokReturn_def
      TokConstrain_def TokChannel_def TokStart_def TokEnd_def TokMessage_def TokCall_def)

lemma reserved_ids:
  "map snd (map reservedSpecial [ReservedStart ..< Suc ReservedEnd])
     = map of_nat [ReservedStart ..< Suc ReservedEnd]"
  by (simp add: reservedSpecial_def comp_def)

lemma reserved_id_range:
  assumes "t \<in> set (map (of_nat :: nat \<Rightarrow> 32 word) [ReservedStart ..< Suc ReservedEnd])"
  shows "200014 \<le> t \<and> t \<le> 201088"
proof -
  have "t \<in> of_nat ` {ReservedStart ..< Suc ReservedEnd}"
    using assms by (simp only: set_map set_upt)
  then obtain n where "t = of_nat n" "ReservedStart \<le> n" "n < Suc ReservedEnd"
    by auto
  then have n: "t = of_nat n" "200014 \<le> n" "n \<le> 201088"
    by (simp_all add: ReservedStart_def ReservedEnd_def)
  have "n < 2 ^ 32"
    using n(3) by simp
  then have u: "unat t = n"
    unfolding n(1) by (rule unat_reserved)
  show ?thesis
    using n(2,3) u by (simp add: word_le_nat_alt)
qed

lemma reserved_distinct:
  "distinct (map (of_nat :: nat \<Rightarrow> 32 word) [ReservedStart ..< Suc ReservedEnd])"
proof -
  have "inj_on (of_nat :: nat \<Rightarrow> 32 word) (set [ReservedStart ..< Suc ReservedEnd])"
  proof (rule inj_onI)
    fix x y assume x: "x \<in> set [ReservedStart ..< Suc ReservedEnd]"
      and y: "y \<in> set [ReservedStart ..< Suc ReservedEnd]"
      and e: "(of_nat x :: 32 word) = of_nat y"
    have "x < Suc ReservedEnd" "y < Suc ReservedEnd"
      using x y by (simp_all only: set_upt atLeastLessThan_iff)
    then have "x < 2 ^ 32" "y < 2 ^ 32"
      by (simp_all add: ReservedEnd_def)
    then have ux: "unat (of_nat x :: 32 word) = x" and uy: "unat (of_nat y :: 32 word) = y"
      by (simp_all only: unat_reserved)
    have "unat (of_nat x :: 32 word) = unat (of_nat y :: 32 word)"
      by (rule arg_cong [OF e])
    then show "x = y"
      by (simp only: ux uy)
  qed
  then show ?thesis
    by (simp add: distinct_map)
qed

lemma HarmonySpecials_distinct: "distinct (map snd HarmonySpecials)"
proof -
  have d1: "distinct (map snd namedSpecials)"
    by (simp add: namedSpecials_ids)
  have d2: "set (map snd namedSpecials)
        \<inter> set (map (of_nat :: nat \<Rightarrow> 32 word) [ReservedStart ..< Suc ReservedEnd]) = {}"
  proof (rule ccontr)
    assume "\<not> ?thesis"
    then obtain t where t1: "t \<in> set (map snd namedSpecials)"
      and t2: "t \<in> set (map (of_nat :: nat \<Rightarrow> 32 word) [ReservedStart ..< Suc ReservedEnd])"
      by blast
    have "200014 \<le> t"
      using reserved_id_range [OF t2] by simp
    then show False
      using t1 unfolding namedSpecials_ids by auto
  qed
  show ?thesis
    unfolding HarmonySpecials_def buildHarmonySpecials_def map_append distinct_append reserved_ids
    using d1 d2 reserved_distinct by simp
qed

lemma HarmonySpecials_ids_ge:
  assumes "(lit, t) \<in> set HarmonySpecials"
  shows "TokStartOfText \<le> t"
proof -
  have "t \<in> set (map snd HarmonySpecials)"
    using assms by force
  then have "t \<in> set (map snd namedSpecials)
      \<or> t \<in> set (map (of_nat :: nat \<Rightarrow> 32 word) [ReservedStart ..< Suc ReservedEnd])"
    unfolding HarmonySpecials_def buildHarmonySpecials_def map_append reserved_ids by simp
  then show ?thesis
  proof
    assume "t \<in> set (map snd namedSpecials)"
    then show ?thesis
      unfolding namedSpecials_ids by (auto simp: TokStartOfText_def)
  next
    assume "t \<in> set (map (of_nat :: nat \<Rightarrow> 32 word) [ReservedStart ..< Suc ReservedEnd])"
    then have "200014 \<le> t"
      using reserved_id_range by blast
    then show ?thesis
      by (simp add: TokStartOfText_def word_le_nat_alt)
  qed
qed

lemma byteVocab_ranks: "\<forall>r \<in> snd ` set byteVocab. r < TokStartOfText"
proof
  fix r assume "r \<in> snd ` set byteVocab"
  then obtain n where n: "r = of_nat n" "n < 256"
    by (auto simp: byteVocab_def)
  have "n < 2 ^ 32"
    using n(2) by simp
  then have "unat r = n"
    unfolding n(1) by (rule unat_reserved)
  then show "r < TokStartOfText"
    using n(2) by (simp add: word_less_nat_alt TokStartOfText_def)
qed

text \<open>
  Claim C10 (special ids inside the content). Let the encoding be loaded from a vocabulary
  whose ranks lie below the special ids (as those of O200k do), and let the parser be in
  state \<open>Content\<close>. For every id \<open>t\<close> of the table of special tokens, with literal \<open>lit\<close>,
  that is not one of the three stop tokens, \<open>Process(t)\<close> returns no error, finalizes no
  message and stays in \<open>Content\<close>: it appends \<open>t\<close> to the content buffer, and the last
  content delta becomes \<open>lit\<close>, because \<open>DecodeBytesInto\<close> resolves through the table of
  special tokens the id that the rank table does not hold.
\<close>

theorem C10_special_id_in_content:
  assumes load: "LoadEncoding U (Inr ps) nm = Inr e"
    and ranks: "\<forall>r \<in> snd ` set ps. r < TokStartOfText"
    and special: "(lit, t) \<in> set HarmonySpecials"
    and nostop: "t \<noteq> TokReturn \<and> t \<noteq> TokEnd \<and> t \<noteq> TokCall"
    and p: "penc p = e" "state p = stContent"
  shows "Process U' p t =
      (None, p\<lparr>tokens := tokens p @ [t], contentToks := contentToks p @ [t],
               scratch := lit, lastDeltaBytes := lit\<rparr>)"
proof -
  have e: "bpe e = NewCoreBPE ps HarmonySpecials (NewO200kSegmenter U)"
      "stopAll e = [TokReturn, TokCall, TokEnd]"
    using load by (auto simp: LoadEncoding_def split: if_splits)
  have a: "AppendInto (dec (bpe e)) [] t = None"
    unfolding e NewCoreBPE_def newCoreBPE_def
    using AppendInto_above_ranks [OF ranks _ HarmonySpecials_ids_ge [OF special]]
    by (simp add: TokStartOfText_def)
  have s: "specialDec (bpe e) t = Some lit"
    unfolding e NewCoreBPE_def newCoreBPE_def
    using specialDec_fold [OF HarmonySpecials_distinct special] by simp
  have d: "DecodeBytesInto (bpe e) [] [t] = Inr lit"
    using a s by simp
  have ns: "t \<notin> set (stopAll e)"
    using nostop e(2) by simp
  define p1 where "p1 = p\<lparr>tokens := tokens p @ [t]\<rparr>"
  define p2 where "p2 = p1\<lparr>contentToks := contentToks p1 @ [t], scratch := []\<rparr>"
  have p1: "state p1 = stContent" "penc p1 = e"
    using p by (simp_all add: p1_def)
  have p2: "penc p2 = e" "scratch p2 = []"
    using p1 by (simp_all add: p2_def)
  have "Process U' p t = (None, p2\<lparr>scratch := lit, lastDeltaBytes := lit\<rparr>)"
    unfolding Process_def Let_def p1_def [symmetric]
    using p1 ns by (simp add: p2_def [symmetric] p2 a s)
  then show ?thesis
    by (simp add: p2_def p1_def)
qed


theorem C10_special_id_in_content_witness:
  "LoadEncoding asciiUnicode (Inr byteVocab) HarmonyGptOss = Inr demoEncoding
   \<and> list_all (\<lambda>r. r < TokStartOfText) (map snd byteVocab)
   \<and> (''<|start|>'', TokStart) \<in> set HarmonySpecials
   \<and> (TokStart \<noteq> TokReturn \<and> TokStart \<noteq> TokEnd \<and> TokStart \<noteq> TokCall)
   \<and> state ((NewStreamParser demoEncoding None)\<lparr>state := stContent\<rparr>) = stContent
   \<and> Process asciiUnicode ((NewStreamParser demoEncoding None)\<lparr>state := stContent\<rparr>) TokStart
       = (None, (NewStreamParser demoEncoding None)
                  \<lparr>state := stContent, tokens := [TokStart], contentToks := [TokStart],
                   scratch := ''<|start|>'', lastDeltaBytes := ''<|start|>''\<rparr>)
   \<and> LastContentDelta
         (snd (Process asciiUnicode ((NewStreamParser demoEncoding None)\<lparr>state := stContent\<rparr>)
            TokStart)) = ''<|start|>''"
proof -
  have sp: "(''<|start|>'', TokStart) \<in> set HarmonySpecials"
    by (simp add: HarmonySpecials_def buildHarmonySpecials_def namedSpecials_def)
  have ns: "TokStart \<noteq> TokReturn \<and> TokStart \<noteq> TokEnd \<and> TokStart \<noteq> TokCall"
    by (simp add: TokStart_def TokReturn_def TokEnd_def TokCall_def)
  have pe: "penc ((NewStreamParser demoEncoding None)\<lparr>state := stContent\<rparr>) = demoEncoding"
    by (simp add: NewStreamParser_def)
  have st: "state ((NewStreamParser demoEncoding None)\<lparr>state := stContent\<rparr>) = stContent"
    by simp
  have rk: "list_all (\<lambda>r. r < TokStartOfText) (map snd byteVocab)"
    using byteVocab_ranks unfolding list_all_iff by simp
  show ?thesis
    using C10_special_id_in_content [OF LoadEncoding_demo byteVocab_ranks sp ns pe st,
        of asciiUnicode]
      LoadEncoding_demo rk sp ns
    by (simp add: NewStreamParser_def LastContentDelta_def)
qed

section \<open>Properties of the BPE core\<close>

text \<open>
  The round trip of the ordinary encoding. \<open>vocabOK\<close> collects what the proof needs of
  the tables of a core: every single byte has a rank, and the decoder store returns the
  bytes of every rank of the forward map. \<open>partsInv\<close> is the invariant of the merge loop:
  the parts start at 0, increase strictly and end at the length of the piece; the bytes
  between two neighbours are in the vocabulary; and a rank below the sentinel at index
  \<open>w\<close> means that the bytes of the parts \<open>w\<close> and \<open>w + 1\<close> together are in the vocabulary.
\<close>

subsection \<open>slices\<close>

lemma slice_append:
  "a \<le> b \<Longrightarrow> b \<le> c \<Longrightarrow> slice p a b @ slice p b c = slice p a c"
proof -
  assume ab: "a \<le> b" and bc: "b \<le> c"
  have "drop b p = drop (b - a) (drop a p)"
    using ab by simp
  then have "slice p a b @ slice p b c
      = take (b - a) (drop a p) @ take (c - b) (drop (b - a) (drop a p))"
    by (simp add: slice_def)
  also have "\<dots> = take ((b - a) + (c - b)) (drop a p)"
    by (simp add: take_add)
  also have "\<dots> = slice p a c"
    using ab bc by (simp add: slice_def)
  finally show ?thesis .
qed

lemma slice_all: "slice p 0 (length p) = p"
  by (simp add: slice_def)

lemma slice_rest: "i \<le> e \<Longrightarrow> slice text i e @ drop e text = drop i text"
proof -
  assume ie: "i \<le> e"
  have "take (e - i) (drop i text) @ drop (e - i) (drop i text) = drop i text"
    by (rule append_take_drop_id)
  moreover have "drop (e - i) (drop i text) = drop e text"
    using ie by simp
  ultimately show ?thesis
    by (simp only: slice_def)
qed

lemma slice_nonempty: "i < length text \<Longrightarrow> i < e \<Longrightarrow> slice text i e \<noteq> []"
  by (simp add: slice_def)

lemma slice_single: "w < length p \<Longrightarrow> slice p w (w + 1) = [p ! w]"
  by (simp add: slice_def take_Suc_conv_app_nth [of 0] hd_drop_conv_nth take_Suc)

lemma consecutive_slices:
  assumes "\<And>w. w < k \<Longrightarrow> s w \<le> s (w + 1)"
  shows "concat (map (\<lambda>w. slice p (s w) (s (w + 1))) [0 ..< k]) = slice p (s 0) (s k)"
  using assms
proof (induction k)
  case 0
  then show ?case by (simp add: slice_def)
next
  case (Suc k)
  have step: "\<And>w. w < Suc k \<Longrightarrow> s w \<le> s (w + 1)"
    by (rule Suc.prems)
  have mono: "s 0 \<le> s k"
  proof -
    have "j \<le> k \<Longrightarrow> s 0 \<le> s j" for j
    proof (induction j)
      case 0
      then show ?case by simp
    next
      case (Suc j)
      have "s j \<le> s (j + 1)"
        using Suc.prems step [of j] by simp
      moreover have "s 0 \<le> s j"
        using Suc by simp
      ultimately show ?case by simp
    qed
    then show ?thesis by simp
  qed
  have "concat (map (\<lambda>w. slice p (s w) (s (w + 1))) [0 ..< Suc k])
      = slice p (s 0) (s k) @ slice p (s k) (s (k + 1))"
    using Suc by simp
  also have "\<dots> = slice p (s 0) (s (Suc k))"
    using mono Suc.prems [of k] by (simp add: slice_append)
  finally show ?case .
qed

subsection \<open>decoding\<close>

lemma DecodeBytesInto_append:
  "DecodeBytesInto b buf (xs @ ys) =
     (case DecodeBytesInto b buf xs of Inl err \<Rightarrow> Inl err | Inr d \<Rightarrow> DecodeBytesInto b d ys)"
  by (induction xs arbitrary: buf) (auto split: option.splits)

definition vocabOK :: "coreBPE \<Rightarrow> bool" where
  "vocabOK b =
     ((\<forall>c. enc b [c] \<noteq> None)
      \<and> (\<forall>k r buf. enc b k = Some r \<longrightarrow> AppendInto (dec b) buf r = Some (buf @ k)))"

lemma decode_encoded:
  assumes "vocabOK b" and "\<forall>k \<in> set ks. enc b k \<noteq> None"
  shows "DecodeBytesInto b buf (map (encOrZero b) ks) = Inr (buf @ concat ks)"
  using assms(2)
proof (induction ks arbitrary: buf)
  case Nil
  then show ?case by simp
next
  case (Cons k ks)
  then obtain r where r: "enc b k = Some r" by auto
  then have "AppendInto (dec b) buf r = Some (buf @ k)"
    using assms(1) by (simp add: vocabOK_def)
  then show ?case
    using Cons r by (simp add: encOrZero_def)
qed


subsection \<open>the search for the lowest rank\<close>

lemma minRankFrom_le: "fst (minRankFrom m j rs) \<le> fst m"
proof (induction rs arbitrary: m j)
  case Nil
  then show ?case by simp
next
  case (Cons x xs)
  show ?case
  proof (cases "x < fst m")
    case True
    have "fst (minRankFrom (x, int j) (j + 1) xs) \<le> x"
      using Cons.IH [of "(x, int j)" "j + 1"] by simp
    then show ?thesis using True by simp
  next
    case False
    then show ?thesis using Cons.IH [of m "j + 1"] by simp
  qed
qed

lemma minRankFrom_same: "fst (minRankFrom m j rs) = fst m \<Longrightarrow> minRankFrom m j rs = m"
proof (induction rs arbitrary: m j)
  case Nil
  then show ?case by simp
next
  case (Cons x xs)
  show ?case
  proof (cases "x < fst m")
    case True
    have "fst (minRankFrom (x, int j) (j + 1) xs) \<le> x"
      using minRankFrom_le [of "(x, int j)" "j + 1" xs] by simp
    then have "fst (minRankFrom m j (x # xs)) < fst m"
      using True by simp
    then show ?thesis using Cons.prems by simp
  next
    case False
    then show ?thesis using Cons by simp
  qed
qed

lemma minRankFrom_index:
  assumes "minRankFrom m j rs = (r, idx)" and "r \<noteq> fst m"
  shows "\<exists>k < length rs. idx = int (j + k) \<and> rs ! k = r"
  using assms
proof (induction rs arbitrary: m j)
  case Nil
  then show ?case by (cases m) simp
next
  case (Cons x xs)
  show ?case
  proof (cases "x < fst m")
    case True
    then have rec: "minRankFrom (x, int j) (j + 1) xs = (r, idx)"
      using Cons.prems(1) by simp
    show ?thesis
    proof (cases "r = x")
      case True
      then have "minRankFrom (x, int j) (j + 1) xs = (x, int j)"
        using rec minRankFrom_same [of "(x, int j)" "j + 1" xs] by simp
      then have "idx = int j"
        using rec by simp
      then show ?thesis
        using True by (intro exI [of _ 0]) simp
    next
      case False
      then obtain k where k: "k < length xs" "idx = int (j + 1 + k)" "xs ! k = r"
        using Cons.IH [OF rec] by auto
      then show ?thesis
        by (intro exI [of _ "Suc k"]) simp
    qed
  next
    case False
    then have rec: "minRankFrom m (j + 1) xs = (r, idx)"
      using Cons.prems(1) by simp
    obtain k where k: "k < length xs" "idx = int (j + 1 + k)" "xs ! k = r"
      using Cons.IH [OF rec Cons.prems(2)] by auto
    then show ?thesis
      by (intro exI [of _ "Suc k"]) simp
  qed
qed

lemma minRankOf_index:
  assumes "minRankOf rs = (r, idx)" and "r \<noteq> maxRank"
  shows "0 \<le> idx \<and> nat idx < length rs \<and> rs ! nat idx = r"
  using minRankFrom_index [of "(maxRank, - 1)" 0 rs r idx] assms
  by (auto simp: minRankOf_def)

lemma minRankFrom_sentinel:
  "minRankFrom m j (rs @ [maxRank]) = minRankFrom m j rs"
  by (induction rs arbitrary: m j) (auto simp: maxRank_def word_order.extremum_strict)


subsection \<open>one round of the merge loop\<close>

lemma getRank_cong:
  assumes "length ps = length qs" and "\<And>j. j < length ps \<Longrightarrow> start (ps ! j) = start (qs ! j)"
  shows "getRank b piece ps i = getRank b piece qs i"
  using assms by (simp add: getRank_def)

lemma mergeAt_length:
  "i + 2 \<le> length parts \<Longrightarrow> length (mergeAt b piece parts i) = length parts - 1"
  by (auto simp: mergeAt_def Let_def)

lemma rank_update_start:
  "start ((ps[k := (ps ! k)\<lparr>rank := r\<rparr>]) ! j) = start (ps ! j)"
proof (cases "k < length ps")
  case True
  then show ?thesis by (simp add: nth_list_update)
next
  case False
  then have "ps[k := (ps ! k)\<lparr>rank := r\<rparr>] = ps"
    by (intro list_update_beyond) simp
  then show ?thesis by simp
qed

lemma mergeAt_start:
  assumes "i + 2 \<le> length parts" and "w + 1 < length parts"
  shows "start (mergeAt b piece parts i ! w) = start (parts ! (if w \<le> i then w else w + 1))"
proof -
  define parts1 where "parts1 = (if i > 0
                   then parts[i - 1 := (parts ! (i - 1))\<lparr>rank := getRank b piece parts (i - 1)\<rparr>]
                   else parts)"
  define parts2 where "parts2 = parts1[i := (parts1 ! i)\<lparr>rank := getRank b piece parts1 i\<rparr>]"
  have m: "mergeAt b piece parts i = take (i + 1) parts2 @ drop (i + 2) parts2"
    by (simp add: mergeAt_def Let_def parts1_def parts2_def)
  have l: "length parts2 = length parts"
    by (simp add: parts1_def parts2_def)
  have s1: "start (parts1 ! j) = start (parts ! j)" for j
    by (simp add: parts1_def rank_update_start)
  have s2: "start (parts2 ! j) = start (parts ! j)" for j
    unfolding parts2_def by (simp add: rank_update_start s1)
  show ?thesis
  proof (cases "w \<le> i")
    case True
    then have "mergeAt b piece parts i ! w = parts2 ! w"
      using assms l by (simp add: m nth_append)
    then show ?thesis using True s2 by simp
  next
    case False
    then have "mergeAt b piece parts i ! w = parts2 ! (w + 1)"
      using assms l by (simp add: m nth_append min_def)
    then show ?thesis using False s2 by simp
  qed
qed

lemma mergeAt_rank:
  assumes "i + 2 \<le> length parts" and "w + 1 < length parts"
  shows "rank (mergeAt b piece parts i ! w) =
     (if w = i then getRank b piece parts i
      else if w + 1 = i then getRank b piece parts w
      else rank (parts ! (if w \<le> i then w else w + 1)))"
proof -
  define parts1 where "parts1 = (if i > 0
                   then parts[i - 1 := (parts ! (i - 1))\<lparr>rank := getRank b piece parts (i - 1)\<rparr>]
                   else parts)"
  define parts2 where "parts2 = parts1[i := (parts1 ! i)\<lparr>rank := getRank b piece parts1 i\<rparr>]"
  have m: "mergeAt b piece parts i = take (i + 1) parts2 @ drop (i + 2) parts2"
    by (simp add: mergeAt_def Let_def parts1_def parts2_def)
  have l1: "length parts1 = length parts"
    by (simp add: parts1_def)
  have l: "length parts2 = length parts"
    by (simp add: parts1_def parts2_def)
  have s1: "start (parts1 ! j) = start (parts ! j)" for j
    by (simp add: parts1_def rank_update_start)
  have g: "getRank b piece parts1 i = getRank b piece parts i"
    by (rule getRank_cong) (simp_all add: l1 s1)
  have r1: "rank (parts1 ! j) = (if j + 1 = i then getRank b piece parts j else rank (parts ! j))"
    if "j < length parts" for j
    using that by (auto simp: parts1_def nth_list_update)
  have r2: "rank (parts2 ! j) =
      (if j = i then getRank b piece parts i
       else if j + 1 = i then getRank b piece parts j else rank (parts ! j))"
    if "j < length parts" for j
    using that r1 [of j] l1 by (auto simp: parts2_def nth_list_update g)
  show ?thesis
  proof (cases "w \<le> i")
    case True
    then have "mergeAt b piece parts i ! w = parts2 ! w"
      using assms l by (simp add: m nth_append)
    then show ?thesis using True r2 [of w] assms by simp
  next
    case False
    then have "mergeAt b piece parts i ! w = parts2 ! (w + 1)"
      using assms l by (simp add: m nth_append min_def)
    then show ?thesis using False r2 [of "w + 1"] assms by simp
  qed
qed

lemma getRank_found:
  assumes "getRank b piece parts i \<noteq> maxRank"
  shows "i + 3 < length parts
     \<and> enc b (slice piece (start (parts ! i)) (start (parts ! (i + 3)))) \<noteq> None"
  using assms by (auto simp: getRank_def split: if_splits option.splits)

definition partsInv :: "coreBPE \<Rightarrow> string \<Rightarrow> part list \<Rightarrow> bool" where
  "partsInv b piece ps =
    (2 \<le> length ps
     \<and> start (ps ! 0) = 0
     \<and> start (ps ! (length ps - 1)) = length piece
     \<and> (\<forall>w. w + 1 < length ps \<longrightarrow> start (ps ! w) < start (ps ! (w + 1)))
     \<and> (\<forall>w. w + 1 < length ps \<longrightarrow>
           enc b (slice piece (start (ps ! w)) (start (ps ! (w + 1)))) \<noteq> None)
     \<and> (\<forall>w. w + 1 < length ps \<longrightarrow> rank (ps ! w) \<noteq> maxRank \<longrightarrow>
           w + 2 < length ps
           \<and> enc b (slice piece (start (ps ! w)) (start (ps ! (w + 2)))) \<noteq> None))"

lemma partsInv_mergeAt:
  assumes inv: "partsInv b piece ps" and i: "i + 1 < length ps" and r: "rank (ps ! i) \<noteq> maxRank"
  shows "partsInv b piece (mergeAt b piece ps i)"
proof -
  let ?qs = "mergeAt b piece ps i"
  have len2: "2 \<le> length ps"
    and s0: "start (ps ! 0) = 0"
    and sl: "start (ps ! (length ps - 1)) = length piece"
    and inc: "\<And>w. w + 1 < length ps \<Longrightarrow> start (ps ! w) < start (ps ! (w + 1))"
    and seg1: "\<And>w. w + 1 < length ps \<Longrightarrow>
           enc b (slice piece (start (ps ! w)) (start (ps ! (w + 1)))) \<noteq> None"
    and seg2: "\<And>w. w + 1 < length ps \<Longrightarrow> rank (ps ! w) \<noteq> maxRank \<Longrightarrow>
           w + 2 < length ps
           \<and> enc b (slice piece (start (ps ! w)) (start (ps ! (w + 2)))) \<noteq> None"
    using inv by (auto simp: partsInv_def)
  have i2: "i + 2 < length ps" and pair: "enc b (slice piece (start (ps ! i)) (start (ps ! (i + 2)))) \<noteq> None"
    using seg2 [OF i r] by auto
  have i2': "i + 2 \<le> length ps"
    using i2 by simp
  have lq: "length ?qs = length ps - 1"
    using i2' by (rule mergeAt_length)
  have st: "start (?qs ! w) = start (ps ! (if w \<le> i then w else w + 1))" if "w + 1 < length ps" for w
    using i2' that by (rule mergeAt_start)
  have rk: "rank (?qs ! w) =
     (if w = i then getRank b piece ps i
      else if w + 1 = i then getRank b piece ps w
      else rank (ps ! (if w \<le> i then w else w + 1)))" if "w + 1 < length ps" for w
    using i2' that by (rule mergeAt_rank)
  have c1: "2 \<le> length ?qs"
    using lq i2 by simp
  have c2: "start (?qs ! 0) = 0"
    using st [of 0] i2 s0 by simp
  have c3: "start (?qs ! (length ?qs - 1)) = length piece"
  proof -
    define n where "n = length ps - 3"
    have n: "length ps = n + 3"
      using i2 by (simp add: n_def)
    have "i \<le> n"
      using i2 n by simp
    then have "start (?qs ! (n + 1)) = start (ps ! (n + 2))"
      using st [of "n + 1"] n by simp
    then show ?thesis
      using sl lq n by simp
  qed
  have c4: "start (?qs ! w) < start (?qs ! (w + 1))" if w: "w + 1 < length ?qs" for w
  proof -
    have w': "w + 2 < length ps" using w lq by simp
    consider "w < i" | "w = i" | "w > i" by linarith
    then show ?thesis
    proof cases
      case 1
      then show ?thesis using st [of w] st [of "w + 1"] inc [of w] w' by simp
    next
      case 2
      have "start (ps ! i) < start (ps ! (i + 1))" using inc [of i] i by simp
      moreover have "start (ps ! (i + 1)) < start (ps ! (i + 2))" using inc [of "i + 1"] i2 by simp
      ultimately show ?thesis using 2 st [of w] st [of "w + 1"] w' by simp
    next
      case 3
      then show ?thesis using st [of w] st [of "w + 1"] inc [of "w + 1"] w' by simp
    qed
  qed
  have c5: "enc b (slice piece (start (?qs ! w)) (start (?qs ! (w + 1)))) \<noteq> None"
    if w: "w + 1 < length ?qs" for w
  proof -
    have w': "w + 2 < length ps" using w lq by simp
    consider "w < i" | "w = i" | "w > i" by linarith
    then show ?thesis
    proof cases
      case 1
      then show ?thesis using st [of w] st [of "w + 1"] seg1 [of w] w' by simp
    next
      case 2
      then show ?thesis using st [of w] st [of "w + 1"] pair w' by simp
    next
      case 3
      then show ?thesis using st [of w] st [of "w + 1"] seg1 [of "w + 1"] w' by simp
    qed
  qed
  have c6: "w + 2 < length ?qs
           \<and> enc b (slice piece (start (?qs ! w)) (start (?qs ! (w + 2)))) \<noteq> None"
    if w: "w + 1 < length ?qs" and rw: "rank (?qs ! w) \<noteq> maxRank" for w
  proof -
    have w': "w + 2 < length ps" using w lq by simp
    consider "w = i" | "w + 1 = i" | "w + 1 < i" | "w > i" by linarith
    then show ?thesis
    proof cases
      case 1
      then have "getRank b piece ps i \<noteq> maxRank"
        using rw rk [of w] w' by simp
      then have g: "i + 3 < length ps
          \<and> enc b (slice piece (start (ps ! i)) (start (ps ! (i + 3)))) \<noteq> None"
        by (rule getRank_found)
      then show ?thesis
        using 1 st [of w] st [of "w + 2"] lq by (auto simp: eval_nat_numeral)
    next
      case 2
      then have "getRank b piece ps w \<noteq> maxRank"
        using rw rk [of w] w' by simp
      then have g: "w + 3 < length ps
          \<and> enc b (slice piece (start (ps ! w)) (start (ps ! (w + 3)))) \<noteq> None"
        by (rule getRank_found)
      then show ?thesis
        using 2 st [of w] st [of "w + 2"] lq by (auto simp: eval_nat_numeral)
    next
      case 3
      then have "rank (ps ! w) \<noteq> maxRank"
        using rw rk [of w] w' by simp
      then have "enc b (slice piece (start (ps ! w)) (start (ps ! (w + 2)))) \<noteq> None"
        using seg2 [of w] w' by simp
      then show ?thesis
        using 3 st [of w] st [of "w + 2"] lq i2 by (auto simp: eval_nat_numeral)
    next
      case 4
      then have "rank (ps ! (w + 1)) \<noteq> maxRank"
        using rw rk [of w] w' by simp
      then have "w + 3 < length ps
          \<and> enc b (slice piece (start (ps ! (w + 1))) (start (ps ! (w + 3)))) \<noteq> None"
        using seg2 [of "w + 1"] w' by (auto simp: eval_nat_numeral)
      then show ?thesis
        using 4 st [of w] st [of "w + 2"] lq by (auto simp: eval_nat_numeral)
    qed
  qed
  show ?thesis
    unfolding partsInv_def using c1 c2 c3 c4 c5 c6 by blast
qed


subsection \<open>the merge loop\<close>

lemma mergeLoop_inv:
  "partsInv b piece ps \<Longrightarrow> m = minRankOf (map rank (butlast ps)) \<Longrightarrow>
     partsInv b piece (mergeLoop b piece ps m)"
proof (induction b piece ps m rule: mergeLoop.induct)
  case (1 b piece parts minRank)
  show ?case
  proof (cases "fst minRank \<noteq> maxRank \<and> 0 \<le> snd minRank \<and> nat (snd minRank) + 2 \<le> length parts")
    case False
    then show ?thesis
      using "1.prems"(1) by (subst mergeLoop.simps) auto
  next
    case True
    obtain r idx where m: "minRank = (r, idx)"
      by (cases minRank) auto
    have eq: "minRankOf (map rank (butlast parts)) = (r, idx)"
      using "1.prems"(2) m by simp
    have rne: "r \<noteq> maxRank"
      using True m by simp
    have found: "0 \<le> idx \<and> nat idx < length (map rank (butlast parts))
        \<and> map rank (butlast parts) ! nat idx = r"
      using eq rne by (rule minRankOf_index)
    then have "nat idx < length parts - 1"
      by simp
    then have i: "nat idx + 1 < length parts"
      by linarith
    have "map rank (butlast parts) ! nat idx = rank (butlast parts ! nat idx)"
      using found by (intro nth_map) simp
    also have "\<dots> = rank (parts ! nat idx)"
      using found by (simp add: nth_butlast)
    finally have "rank (parts ! nat idx) = r"
      using found by simp
    then have r: "rank (parts ! nat idx) \<noteq> maxRank"
      using True m by simp
    have step: "partsInv b piece (mergeAt b piece parts (nat (snd minRank)))"
      using partsInv_mergeAt [OF "1.prems"(1) i r] m by simp
    have "partsInv b piece
       (mergeLoop b piece (mergeAt b piece parts (nat (snd minRank)))
         (minRankOf (map rank (butlast (mergeAt b piece parts (nat (snd minRank)))))))"
      using "1.IH" [OF True step] by simp
    then show ?thesis
      using True by (subst mergeLoop.simps) simp
  qed
qed

lemma initialParts_nth:
  "w + 1 < length piece \<Longrightarrow>
     initialParts b piece ! w =
       \<lparr>start = w,
        rank = (case enc b (slice piece w (w + 2)) of Some r \<Rightarrow> r | None \<Rightarrow> maxRank)\<rparr>"
proof -
  assume "w + 1 < length piece"
  then have "w < length piece - 1"
    by simp
  then have "[0 ..< length piece - 1] ! w = w"
    by (simp only: nth_upt add_0)
  then show ?thesis
    using \<open>w < length piece - 1\<close> by (simp add: initialParts_def)
qed

lemma initialParts_length: "length (initialParts b piece) = length piece - 1"
  by (simp add: initialParts_def)

lemma initial_inv:
  assumes single: "\<forall>c. enc b [c] \<noteq> None" and len: "2 \<le> length piece"
  shows "partsInv b piece
     (initialParts b piece @ [\<lparr>start = length piece - 1, rank = maxRank\<rparr>,
                               \<lparr>start = length piece, rank = maxRank\<rparr>])"
proof -
  let ?n = "length piece"
  let ?ps = "initialParts b piece @ [\<lparr>start = ?n - 1, rank = maxRank\<rparr>,
                               \<lparr>start = ?n, rank = maxRank\<rparr>]"
  have l: "length ?ps = ?n + 1"
    using len by (simp add: initialParts_length)
  have st: "start (?ps ! w) = w" if wn: "w \<le> ?n" for w
  proof -
    consider "w + 1 < ?n" | "w + 1 = ?n" | "w = ?n" using wn by linarith
    then show ?thesis
    proof cases
      case 1
      then show ?thesis
        by (simp add: nth_append initialParts_length initialParts_nth)
    next
      case 2
      then have "w = length (initialParts b piece)"
        by (simp add: initialParts_length)
      then show ?thesis
        using 2 by (simp add: nth_append)
    next
      case 3
      then have "w = Suc (length (initialParts b piece))"
        using len by (simp add: initialParts_length)
      then show ?thesis
        using 3 by (simp add: nth_append)
    qed
  qed
  have rk: "rank (?ps ! w) = maxRank" if wn: "?n \<le> w + 1" "w \<le> ?n" for w
  proof -
    consider "w + 1 = ?n" | "w = ?n" using wn by linarith
    then show ?thesis
    proof cases
      case 1
      then have "w = length (initialParts b piece)"
        by (simp add: initialParts_length)
      then show ?thesis
        by (simp add: nth_append)
    next
      case 2
      then have "w = Suc (length (initialParts b piece))"
        using len by (simp add: initialParts_length)
      then show ?thesis
        by (simp add: nth_append)
    qed
  qed
  have c5: "enc b (slice piece (start (?ps ! w)) (start (?ps ! (w + 1)))) \<noteq> None"
    if "w + 1 < length ?ps" for w
  proof -
    have "w < ?n" using that l by simp
    then have "slice piece w (w + 1) = [piece ! w]"
      by (rule slice_single)
    then show ?thesis
      using st [of w] st [of "w + 1"] \<open>w < ?n\<close> single by simp
  qed
  have c6: "w + 2 < length ?ps
           \<and> enc b (slice piece (start (?ps ! w)) (start (?ps ! (w + 2)))) \<noteq> None"
    if w: "w + 1 < length ?ps" and rw: "rank (?ps ! w) \<noteq> maxRank" for w
  proof -
    have wn: "w < ?n" using w l by simp
    have w1: "w + 1 < ?n"
      using rk [of w] rw wn by (cases "w + 1 < ?n") auto
    have "?ps ! w = initialParts b piece ! w"
      using w1 by (simp add: nth_append initialParts_length)
    then have "(case enc b (slice piece w (w + 2)) of Some r \<Rightarrow> r | None \<Rightarrow> maxRank) \<noteq> maxRank"
      using rw w1 by (simp add: initialParts_nth)
    then have "enc b (slice piece w (w + 2)) \<noteq> None"
      by (auto split: option.splits)
    then show ?thesis
      using st [of w] st [of "w + 2"] w1 l by simp
  qed
  have c3: "start (?ps ! (length ?ps - 1)) = ?n"
    using st [of ?n] l by simp
  have c4: "start (?ps ! w) < start (?ps ! (w + 1))" if "w + 1 < length ?ps" for w
    using st [of w] st [of "w + 1"] that l by simp
  show ?thesis
    unfolding partsInv_def using l len st [of 0] c3 c4 c5 c6 by auto
qed

lemma bytePairMerge_inv:
  assumes single: "\<forall>c. enc b [c] \<noteq> None" and len: "2 \<le> length piece"
  shows "partsInv b piece (bytePairMerge b piece)"
proof -
  let ?ps = "initialParts b piece @ [\<lparr>start = length piece - 1, rank = maxRank\<rparr>,
                               \<lparr>start = length piece, rank = maxRank\<rparr>]"
  have "map rank (butlast ?ps) = map rank (initialParts b piece) @ [maxRank]"
    by (simp add: butlast_append)
  then have "minRankOf (map rank (initialParts b piece)) = minRankOf (map rank (butlast ?ps))"
    by (simp add: minRankOf_def minRankFrom_sentinel)
  then show ?thesis
    unfolding bytePairMerge_def Let_def
    using mergeLoop_inv [OF initial_inv [OF single len]] by simp
qed

lemma bytePairEncode_decode:
  assumes ok: "vocabOK b" and ne: "piece \<noteq> []"
  shows "DecodeBytesInto b buf (bytePairEncode b piece) = Inr (buf @ piece)"
proof (cases "length piece = 1")
  case True
  then obtain c where c: "piece = [c]"
    by (cases piece) auto
  have "enc b [c] \<noteq> None"
    using ok by (simp add: vocabOK_def)
  then have "DecodeBytesInto b buf (map (encOrZero b) [piece]) = Inr (buf @ concat [piece])"
    using c by (intro decode_encoded [OF ok]) simp
  then show ?thesis
    using True by (simp add: bytePairEncode_def)
next
  case False
  moreover have "length piece \<noteq> 0"
    using ne by simp
  ultimately have len: "2 \<le> length piece"
    by linarith
  let ?ps = "bytePairMerge b piece"
  have single: "\<forall>c. enc b [c] \<noteq> None"
    using ok by (simp add: vocabOK_def)
  have inv: "partsInv b piece ?ps"
    using single len by (rule bytePairMerge_inv)
  let ?f = "\<lambda>w. slice piece (start (?ps ! w)) (start (?ps ! (w + 1)))"
  have toks: "bytePairEncode b piece = map (encOrZero b) (map ?f [0 ..< length ?ps - 1])"
    using False by (simp add: bytePairEncode_def Let_def comp_def)
  have dom: "\<forall>k \<in> set (map ?f [0 ..< length ?ps - 1]). enc b k \<noteq> None"
    using inv by (auto simp: partsInv_def)
  have mono: "\<And>w. w < length ?ps - 1 \<Longrightarrow> start (?ps ! w) \<le> start (?ps ! (w + 1))"
    using inv by (auto simp: partsInv_def intro: less_imp_le)
  have "concat (map ?f [0 ..< length ?ps - 1])
      = slice piece (start (?ps ! 0)) (start (?ps ! (length ?ps - 1)))"
    using consecutive_slices [of "length ?ps - 1" "\<lambda>w. start (?ps ! w)" piece] mono by simp
  also have "\<dots> = piece"
    using inv by (simp add: partsInv_def slice_all)
  finally have cat: "concat (map ?f [0 ..< length ?ps - 1]) = piece" .
  show ?thesis
    unfolding toks using decode_encoded [OF ok dom, of buf] cat by simp
qed

subsection \<open>the encoder loop\<close>

lemma pieceEnd_gt: "i < pieceEnd b T i"
  by (simp add: pieceEnd_def)

lemma encodeLoop_decode:
  "vocabOK b \<Longrightarrow> a = {} \<Longrightarrow> DecodeBytesInto b buf out = Inr d \<Longrightarrow>
     DecodeBytesInto b buf (fst (encodeLoop b T a i out n)) = Inr (d @ drop i T)"
proof (induction b T a i out n arbitrary: d rule: encodeLoop.induct)
  case (1 b T allowedSpecial i out lastPieceLen)
  have ok: "vocabOK b" and a: "allowedSpecial = {}"
    using "1.prems" by simp_all
  show ?case
  proof (cases "i < length T")
    case False
    then show ?thesis
      using "1.prems" by (subst encodeLoop.simps) simp
  next
    case True
    let ?e = "pieceEnd b T i"
    let ?piece = "slice T i ?e"
    have nomatch: "\<not> (allowedSpecial \<noteq> {} \<and> snd (matchSpecialAt b T i allowedSpecial) > 0)"
      using a by simp
    have ne: "?piece \<noteq> []"
      using True pieceEnd_gt by (rule slice_nonempty)
    have rest: "?piece @ drop ?e T = drop i T"
      using pieceEnd_gt [of i b T] by (intro slice_rest) simp
    show ?thesis
    proof (cases "enc b ?piece")
      case None
      have dec: "DecodeBytesInto b buf (out @ bytePairEncode b ?piece) = Inr (d @ ?piece)"
        using "1.prems"(3) bytePairEncode_decode [OF ok ne] by (simp add: DecodeBytesInto_append)
      have "DecodeBytesInto b buf
           (fst (encodeLoop b T allowedSpecial ?e (out @ bytePairEncode b ?piece)
                  (length (bytePairEncode b ?piece))))
         = Inr ((d @ ?piece) @ drop ?e T)"
        using "1.IH"(2) [OF True nomatch None ok a dec] by simp
      then show ?thesis
        using True None rest a by (subst encodeLoop.simps) simp
    next
      case (Some tid)
      have "AppendInto (dec b) d tid = Some (d @ ?piece)"
        using ok Some by (simp add: vocabOK_def)
      then have dec: "DecodeBytesInto b buf (out @ [tid]) = Inr (d @ ?piece)"
        using "1.prems"(3) by (simp add: DecodeBytesInto_append)
      have "DecodeBytesInto b buf (fst (encodeLoop b T allowedSpecial ?e (out @ [tid]) 1))
         = Inr ((d @ ?piece) @ drop ?e T)"
        using "1.IH"(3) [OF True nomatch Some ok a dec] by simp
      then show ?thesis
        using True Some rest a by (subst encodeLoop.simps) simp
    qed
  qed
qed

lemma roundtrip_core:
  assumes "vocabOK b"
  shows "DecodeUTF8 b (EncodeOrdinary b T) = Inr T"
  using encodeLoop_decode [OF assms refl, of "[]" "[]" "[]" T 0 0]
  by (simp add: DecodeUTF8_def DecodeBytes_def EncodeOrdinary_def Encode_def)


subsection \<open>the tables built from the vocabulary\<close>

lemma enc_fold_mem:
  "foldl (\<lambda>m (b, r). m(b \<mapsto> r)) m0 ps k = Some r \<Longrightarrow> (k, r) \<in> set ps \<or> m0 k = Some r"
proof (induction ps arbitrary: m0 rule: rev_induct)
  case Nil
  then show ?case by simp
next
  case (snoc x xs)
  obtain k0 r0 where x: "x = (k0, r0)" by (cases x) auto
  have step: "foldl (\<lambda>m (b, r). m(b \<mapsto> r)) m0 (xs @ [x])
      = (foldl (\<lambda>m (b, r). m(b \<mapsto> r)) m0 xs)(k0 \<mapsto> r0)"
    by (simp add: x)
  show ?case
  proof (cases "k = k0")
    case True
    then have "r = r0"
      using snoc.prems unfolding step by simp
    then show ?thesis using True x by simp
  next
    case False
    then have "foldl (\<lambda>m (b, r). m(b \<mapsto> r)) m0 xs k = Some r"
      using snoc.prems unfolding step by simp
    then have "(k, r) \<in> set xs \<or> m0 k = Some r"
      by (rule snoc.IH)
    then show ?thesis by auto
  qed
qed

lemma enc_fold_dom:
  "k \<in> fst ` set ps \<Longrightarrow> foldl (\<lambda>m (b, r). m(b \<mapsto> r)) m0 ps k \<noteq> None"
proof (induction ps arbitrary: m0 rule: rev_induct)
  case Nil
  then show ?case by simp
next
  case (snoc x xs)
  obtain k0 r0 where x: "x = (k0, r0)" by (cases x) auto
  have step: "foldl (\<lambda>m (b, r). m(b \<mapsto> r)) m0 (xs @ [x])
      = (foldl (\<lambda>m (b, r). m(b \<mapsto> r)) m0 xs)(k0 \<mapsto> r0)"
    by (simp add: x)
  show ?case
  proof (cases "k = k0")
    case True
    then show ?thesis unfolding step by simp
  next
    case False
    then have "k \<in> fst ` set xs"
      using snoc.prems x by auto
    then have "foldl (\<lambda>m (b, r). m(b \<mapsto> r)) m0 xs k \<noteq> None"
      by (rule snoc.IH)
    then show ?thesis
      using False unfolding step by simp
  qed
qed

lemma maxID_ge_init:
  "m \<le> foldl (\<lambda>m (b, tid). if tid > m then tid else m) (m :: Rank) ps"
proof (induction ps arbitrary: m)
  case Nil
  then show ?case by simp
next
  case (Cons x xs)
  obtain k r where x: "x = (k, r)" by (cases x) auto
  show ?case
  proof (cases "r > m")
    case True
    then have "m \<le> r" by simp
    also have "r \<le> foldl (\<lambda>m (b, tid). if tid > m then tid else m) r xs"
      by (rule Cons.IH)
    finally show ?thesis using True x by simp
  next
    case False
    then show ?thesis using Cons.IH [of m] x by simp
  qed
qed

lemma maxID_ge:
  "r \<in> snd ` set ps \<Longrightarrow> r \<le> foldl (\<lambda>m (b, tid). if tid > m then tid else m) (m :: Rank) ps"
proof (induction ps arbitrary: m)
  case Nil
  then show ?case by simp
next
  case (Cons x xs)
  obtain k0 r0 where x: "x = (k0, r0)" by (cases x) auto
  let ?m' = "if r0 > m then r0 else m"
  have f: "foldl (\<lambda>m (b, tid). if tid > m then tid else m) m (x # xs)
      = foldl (\<lambda>m (b, tid). if tid > m then tid else m) ?m' xs"
    by (simp add: x)
  show ?case
  proof (cases "r \<in> snd ` set xs")
    case True
    then show ?thesis unfolding f by (rule Cons.IH)
  next
    case False
    then have "r = r0" using Cons.prems x by auto
    then have "r \<le> ?m'" by auto
    also have "?m' \<le> foldl (\<lambda>m (b, tid). if tid > m then tid else m) ?m' xs"
      by (rule maxID_ge_init)
    finally show ?thesis unfolding f .
  qed
qed

lemma store_keep:
  "i < length tmp \<Longrightarrow> tmp ! i = Some v \<Longrightarrow>
     foldl (\<lambda>tmp (b, tid). if tmp ! unat tid = None then tmp[unat tid := Some b] else tmp)
       tmp ps ! i = Some v"
proof (induction ps arbitrary: tmp)
  case Nil
  then show ?case by simp
next
  case (Cons x xs)
  obtain k0 r0 where x: "x = (k0, r0)" by (cases x) auto
  let ?tmp' = "if tmp ! unat r0 = None then tmp[unat r0 := Some k0] else tmp"
  have "i < length ?tmp'" using Cons.prems(1) by simp
  moreover have "?tmp' ! i = Some v"
  proof (cases "tmp ! unat r0 = None")
    case True
    then have "i \<noteq> unat r0"
      using Cons.prems(2) by auto
    then show ?thesis
      using True Cons.prems by (simp add: nth_list_update)
  next
    case False
    then show ?thesis using Cons.prems(2) by auto
  qed
  ultimately show ?case
    using Cons.IH [of ?tmp'] x by simp
qed

lemma store_set:
  "distinct (map snd ps) \<Longrightarrow> (k, r) \<in> set ps \<Longrightarrow> unat r < length tmp \<Longrightarrow>
     tmp ! unat r = None \<Longrightarrow>
     foldl (\<lambda>tmp (b, tid). if tmp ! unat tid = None then tmp[unat tid := Some b] else tmp)
       tmp ps ! unat r = Some k"
proof (induction ps arbitrary: tmp)
  case Nil
  then show ?case by simp
next
  case (Cons x xs)
  obtain k0 r0 where x: "x = (k0, r0)" by (cases x) auto
  let ?tmp' = "if tmp ! unat r0 = None then tmp[unat r0 := Some k0] else tmp"
  have f: "foldl (\<lambda>tmp (b, tid). if tmp ! unat tid = None then tmp[unat tid := Some b] else tmp)
       tmp (x # xs)
     = foldl (\<lambda>tmp (b, tid). if tmp ! unat tid = None then tmp[unat tid := Some b] else tmp)
       ?tmp' xs"
    by (simp add: x)
  have l: "unat r < length ?tmp'" using Cons.prems(3) by simp
  show ?case
  proof (cases "(k, r) = x")
    case True
    then have "?tmp' ! unat r = Some k"
      using x Cons.prems(3,4) by simp
    then show ?thesis
      unfolding f using l by (intro store_keep)
  next
    case False
    then have mem: "(k, r) \<in> set xs" using Cons.prems(2) by simp
    then have "r \<in> snd ` set xs" by force
    then have "r \<noteq> r0" using Cons.prems(1) x by auto
    then have "unat r \<noteq> unat r0" by (simp add: word_unat_eq_iff)
    then have "?tmp' ! unat r = None"
      using Cons.prems(4) by (simp add: nth_list_update)
    then show ?thesis
      unfolding f using Cons.IH [OF _ mem l] Cons.prems(1) by simp
  qed
qed

lemma AppendInto_newTokenStore:
  assumes "distinct (map snd ps)" and "(k, r) \<in> set ps"
  shows "AppendInto (newTokenStore ps) buf r = Some (buf @ k)"
proof -
  let ?maxID = "foldl (\<lambda>m (b, tid). if tid > m then tid else m) 0 ps"
  let ?init = "replicate (unat ?maxID + 1) (None :: string option)"
  have "r \<in> snd ` set ps" using assms(2) by force
  then have "r \<le> ?maxID" by (rule maxID_ge)
  then have "unat r \<le> unat ?maxID" by (simp add: word_le_nat_alt)
  then have l0: "unat r < unat ?maxID + 1" by simp
  then have l: "unat r < length ?init" by simp
  have n: "?init ! unat r = None"
    using l0 by (rule nth_replicate)
  have "foldl (\<lambda>tmp (b, tid). if tmp ! unat tid = None then tmp[unat tid := Some b] else tmp)
       ?init ps ! unat r = Some k"
    using assms l n by (rule store_set)
  moreover have "unat r < length (foldl (\<lambda>tmp (b, tid). if tmp ! unat tid = None then tmp[unat tid := Some b] else tmp)
       ?init ps)"
    using l by (simp only: tokenStore_fold_length)
  ultimately show ?thesis
    by (simp add: AppendInto_def newTokenStore_def Let_def)
qed

lemma vocabOK_newCoreBPE:
  assumes "distinct (map snd ps)" and "\<forall>c. [c] \<in> fst ` set ps"
  shows "vocabOK (newCoreBPE ps specials sg)"
proof -
  have a: "enc (newCoreBPE ps specials sg) [c] \<noteq> None" for c
    using assms(2) by (simp add: newCoreBPE_def enc_fold_dom)
  have b: "AppendInto (dec (newCoreBPE ps specials sg)) buf r = Some (buf @ k)"
    if "enc (newCoreBPE ps specials sg) k = Some r" for k r buf
  proof -
    have "(k, r) \<in> set ps"
      using that enc_fold_mem [of Map.empty ps k r] by (simp add: newCoreBPE_def)
    then show ?thesis
      using assms(1) by (simp add: newCoreBPE_def AppendInto_newTokenStore)
  qed
  show ?thesis
    unfolding vocabOK_def using a b by blast
qed

lemma byteVocab_distinct: "distinct (map snd byteVocab)"
proof -
  have "inj_on (of_nat :: nat \<Rightarrow> 32 word) (set [0 ..< 256])"
  proof (rule inj_onI)
    fix x y assume x: "x \<in> set [0 ..< 256 :: nat]" and y: "y \<in> set [0 ..< 256 :: nat]"
      and e: "(of_nat x :: 32 word) = of_nat y"
    have "x < 256" "y < 256"
      using x y by (simp_all only: set_upt atLeastLessThan_iff)
    then have "x < 2 ^ 32" "y < 2 ^ 32"
      by simp_all
    then have ux: "unat (of_nat x :: 32 word) = x" and uy: "unat (of_nat y :: 32 word) = y"
      by (simp_all only: unat_reserved)
    have "unat (of_nat x :: 32 word) = unat (of_nat y :: 32 word)"
      by (rule arg_cong [OF e])
    then show "x = y"
      by (simp only: ux uy)
  qed
  then have "distinct (map (of_nat :: nat \<Rightarrow> 32 word) [0 ..< 256])"
    by (simp only: distinct_map distinct_upt)
  moreover have "map snd byteVocab = map of_nat [0 ..< 256]"
    unfolding byteVocab_def by (simp only: map_map comp_def snd_conv)
  ultimately show ?thesis by simp
qed

lemma byteVocab_single: "[c] \<in> fst ` set byteVocab"
proof -
  have "of_char c < (256 :: nat)"
    by simp
  then have "(of_char c :: nat) \<in> {0 ..< 256}"
    by simp
  then have "([char_of (of_char c :: nat)], (of_nat (of_char c) :: Rank))
      \<in> (\<lambda>n. ([char_of n], of_nat n)) ` {0 ..< 256}"
    by (rule imageI)
  then have "([c], (of_nat (of_char c) :: Rank)) \<in> set byteVocab"
    unfolding byteVocab_def by (simp only: set_map set_upt char_of_char)
  then show ?thesis by force
qed

text \<open>
  Claim C5 (BPE round trip). The vocabulary file is not part of the repository: the claim
  is proved for every vocabulary whose ranks are pairwise different and that holds every
  single byte (O200k does both), for every table of special tokens and for the O200k
  segmenter over any Unicode tables. For every text \<open>T\<close>, decoding the ordinary encoding of
  \<open>T\<close> yields \<open>T\<close>. The text need not be valid UTF-8 nor free of special literals:
  \<open>DecodeUTF8\<close> converts the bytes without validating them, and the ordinary encoding
  matches no special token.
\<close>

theorem C5_bpe_round_trip:
  assumes "distinct (map snd ps)" and "\<forall>c. [c] \<in> fst ` set ps"
  shows "DecodeUTF8 (NewCoreBPE ps specials (NewO200kSegmenter U))
           (EncodeOrdinary (NewCoreBPE ps specials (NewO200kSegmenter U)) T) = Inr T"
  unfolding NewCoreBPE_def
  by (rule roundtrip_core [OF vocabOK_newCoreBPE [OF assms]])

theorem C5_bpe_round_trip_witness:
  "distinct (map snd byteVocab) \<and> (\<forall>c. [c] \<in> fst ` set byteVocab)
   \<and> DecodeUTF8 (NewCoreBPE byteVocab HarmonySpecials (NewO200kSegmenter asciiUnicode))
        (EncodeOrdinary (NewCoreBPE byteVocab HarmonySpecials (NewO200kSegmenter asciiUnicode))
           ''Hello, world!'') = Inr ''Hello, world!''"
proof -
  have s: "\<forall>c. [c] \<in> fst ` set byteVocab"
    using byteVocab_single by blast
  show ?thesis
    using C5_bpe_round_trip [OF byteVocab_distinct s, of HarmonySpecials asciiUnicode
        "''Hello, world!''"] byteVocab_distinct s
    by simp
qed

section \<open>Properties of the header parser\<close>

subsection \<open>The small instance decodes byte tokens\<close>

lemma demo_bpe: "bpe demoEncoding = newCoreBPE byteVocab HarmonySpecials (NewO200kSegmenter asciiUnicode)"
  by (simp add: demoEncoding_def LoadEncoding_def NewCoreBPE_def)

lemma demo_vocabOK: "vocabOK (bpe demoEncoding)"
  unfolding demo_bpe using byteVocab_distinct byteVocab_single
  by (intro vocabOK_newCoreBPE) auto

lemma byteVocab_mem: "([c], of_nat (of_char c)) \<in> set byteVocab"
proof -
  have "of_char c < (256 :: nat)"
    by simp
  then have "(of_char c :: nat) \<in> {0 ..< 256}"
    by simp
  then have "([char_of (of_char c :: nat)], (of_nat (of_char c) :: Rank))
      \<in> (\<lambda>n. ([char_of n], of_nat n)) ` {0 ..< 256}"
    by (rule imageI)
  then show ?thesis
    unfolding byteVocab_def by (simp only: set_map set_upt char_of_char)
qed

lemma demo_decode_bytes:
  "DecodeBytesInto (bpe demoEncoding) buf (map (\<lambda>c. of_nat (of_char c)) s) = Inr (buf @ s)"
proof (induction s arbitrary: buf)
  case Nil
  then show ?case by simp
next
  case (Cons c s)
  have "AppendInto (dec (bpe demoEncoding)) buf (of_nat (of_char c)) = Some (buf @ [c])"
    unfolding demo_bpe
    using AppendInto_newTokenStore [OF byteVocab_distinct byteVocab_mem, of buf c]
    by (simp add: newCoreBPE_def)
  then show ?case
    using Cons by simp
qed

lemma trimLeftSpace_Nil: "trimLeftSpace U [] = []"
  by (subst trimLeftSpace.simps) simp

lemma keepEnd_Nil: "keepEnd U [] 0 0 = 0"
  by (subst keepEnd.simps) simp

lemma TrimSpace_Nil: "TrimSpace U [] = []"
  by (simp add: TrimSpace_def trimLeftSpace_Nil keepEnd_Nil)

lemma stripChannels_Nil: "stripChannels U [] = []"
  by (subst stripChannels.simps) simp

text \<open>
  Claim C4 (role hint and header). The claim: with a role hint, the role of the new message
  is the hinted role, and the name detected from the header text is kept only when the
  hint is the tool role; for every other hint it is not kept. \<open>parseHeaderFromTokens\<close>
  assigns the detected name before it looks at the hint, so the assignment under
  \<open>if hdr.author.Role == RoleTool && hdr.author.Name == ""\<close> changes nothing and the
  detected name is kept for every hint: a parser hinted with the assistant role whose
  header tokens decode to \<open>assistant:bob\<close> stores, on \<open><|message|>\<close>, a message of role
  \<open>assistant\<close> and name \<open>bob\<close>.
\<close>

theorem C4_hinted_header_keeps_detected_name:
  assumes "nextRole p = Some RoleAssistant" and "state p = stHeader"
    and "DecodeUTF8 (bpe (penc p)) (headerToks p) = Inr ''assistant:bob''"
  shows "Process U p TokMessage =
    (None,
     p\<lparr>tokens := tokens p @ [TokMessage], nextRole := None, contentToks := [],
       messages := messages p @
         [\<lparr>Author = \<lparr>Role = RoleAssistant, Name = ''bob''\<rparr>, Recipient = [], Content = [],
           Channel = [], ContentType = []\<rparr>],
       state := stContent\<rparr>)"
proof -
  have n: "normalizeHeader U ''assistant:bob'' = ''assistant:bob''"
    by (simp add: normalizeHeader_def Contains_def HasPrefix_def)
  have sp: "splitLeadingToken U ''assistant:bob'' = (''assistant:bob'', [])"
    by (simp add: splitLeadingToken_def)
  have d: "detectRoleAndAuthor U ''assistant:bob'' [] = (RoleAssistant, ''bob'')"
    by (simp add: detectRoleAndAuthor_def HasPrefix_def RoleUser_def RoleAssistant_def
        RoleSystem_def RoleDeveloper_def RoleTool_def)
  have sc: "scrubContentType U ''assistant:bob'' [] = []"
    by (simp add: scrubContentType_def stripRecipient_def stripChannels_Nil HasPrefix_def
        TrimSpace_Nil)
  have r: "extractRecipient ''assistant:bob'' = []"
    by (simp add: extractRecipient_def HasPrefix_def)
  have c: "extractChannel ''assistant:bob'' = []"
    by (simp add: extractChannel_def HasPrefix_def)
  define p1 where "p1 = p\<lparr>tokens := tokens p @ [TokMessage]\<rparr>"
  have p1: "nextRole p1 = Some RoleAssistant" "state p1 = stHeader"
    "DecodeUTF8 (bpe (penc p1)) (headerToks p1) = Inr ''assistant:bob''"
    using assms by (simp_all add: p1_def)
  have h: "parseHeaderFromTokens U p1 (headerToks p1) =
      Inr \<lparr>author = \<lparr>Role = RoleAssistant, Name = ''bob''\<rparr>, recipient = [], channel = [],
           contentType = []\<rparr>"
    unfolding parseHeaderFromTokens_def p1(3) p1(1)
    by (simp add: n sp d sc r c Let_def RoleAssistant_def RoleTool_def)
  have "Process U p TokMessage =
    (None,
     p1\<lparr>nextRole := None, contentToks := [],
       messages := messages p1 @
         [\<lparr>Author = \<lparr>Role = RoleAssistant, Name = ''bob''\<rparr>, Recipient = [], Content = [],
           Channel = [], ContentType = []\<rparr>],
       state := stContent\<rparr>)"
    unfolding Process_def Let_def p1_def [symmetric]
    using p1(2) h by (simp add: TokMessage_def TokStart_def)
  then show ?thesis
    by (simp add: p1_def)
qed


theorem C4_hinted_header_keeps_detected_name_witness:
  "nextRole (snd (processAll asciiUnicode (NewStreamParser demoEncoding (Some RoleAssistant))
              (map (\<lambda>c. of_nat (of_char c)) ''assistant:bob''))) = Some RoleAssistant
   \<and> state (snd (processAll asciiUnicode (NewStreamParser demoEncoding (Some RoleAssistant))
              (map (\<lambda>c. of_nat (of_char c)) ''assistant:bob''))) = stHeader
   \<and> DecodeUTF8 (bpe demoEncoding)
        (headerToks (snd (processAll asciiUnicode
           (NewStreamParser demoEncoding (Some RoleAssistant))
           (map (\<lambda>c. of_nat (of_char c)) ''assistant:bob'')))) = Inr ''assistant:bob''
   \<and> messages (snd (Process asciiUnicode
        (snd (processAll asciiUnicode (NewStreamParser demoEncoding (Some RoleAssistant))
              (map (\<lambda>c. of_nat (of_char c)) ''assistant:bob''))) TokMessage))
       = [\<lparr>Author = \<lparr>Role = RoleAssistant, Name = ''bob''\<rparr>, Recipient = [], Content = [],
           Channel = [], ContentType = []\<rparr>]"
proof -
  let ?toks = "map (\<lambda>c. of_nat (of_char c)) ''assistant:bob'' :: token list"
  let ?p0 = "NewStreamParser demoEncoding (Some RoleAssistant)"
  have run: "processAll asciiUnicode ?p0 ?toks
      = (None, ?p0\<lparr>tokens := ?toks, headerToks := ?toks\<rparr>)"
    by (simp add: Process_def NewStreamParser_def Let_def TokStart_def TokMessage_def)
  have a: "nextRole (?p0\<lparr>tokens := ?toks, headerToks := ?toks\<rparr>) = Some RoleAssistant"
    by (simp add: NewStreamParser_def)
  have b: "state (?p0\<lparr>tokens := ?toks, headerToks := ?toks\<rparr>) = stHeader"
    by (simp add: NewStreamParser_def)
  have c: "DecodeUTF8 (bpe (penc (?p0\<lparr>tokens := ?toks, headerToks := ?toks\<rparr>)))
        (headerToks (?p0\<lparr>tokens := ?toks, headerToks := ?toks\<rparr>)) = Inr ''assistant:bob''"
    using demo_decode_bytes [of "[]" "''assistant:bob''"]
    by (simp add: NewStreamParser_def DecodeUTF8_def DecodeBytes_def)
  have c': "DecodeUTF8 (bpe demoEncoding)
        (headerToks (?p0\<lparr>tokens := ?toks, headerToks := ?toks\<rparr>)) = Inr ''assistant:bob''"
    using c by (simp add: NewStreamParser_def)
  show ?thesis
    unfolding run snd_conv
    using C4_hinted_header_keeps_detected_name [OF a b c, of asciiUnicode] a b c'
    by (simp add: NewStreamParser_def)
qed

end
